theory Spec2Isabelle
  imports Main
begin

section \<open>Data model of unshredder.py\<close>

text \<open>
  A pixel is the tuple of channel intensities that the imaging library hands out for a
  multi-band raster; Python integers are unbounded, hence \<open>int\<close>. A border is the list
  of sampled pixels of one edge column.
\<close>

type_synonym pixel = "int list"

datatype error = IndexError | AttributeError

definition MAX_const :: int where
  "MAX_const = 10 ^ 9"

definition STRIP_WIDTH :: nat where
  "STRIP_WIDTH = 32"

definition IMAGE_WIDTH :: nat where
  "IMAGE_WIDTH = 640"

definition IMAGE_HEIGHT :: nat where
  "IMAGE_HEIGHT = 359"

definition SAMPLING_DISTANCE :: nat where
  "SAMPLING_DISTANCE = 2"

text \<open>Subscripting a sequence with a non-negative index; past the end Python raises.\<close>

definition getitem :: "'a list \<Rightarrow> nat \<Rightarrow> error + 'a" where
  "getitem xs i = (if i < length xs then Inr (xs ! i) else Inl IndexError)"

section \<open>GetDistance\<close>

text \<open>
  The inner loop \<open>for j in range(len(a_rgb)-3)\<close> with the running total threaded
  through; the list argument is the remaining range of \<open>j\<close>.
\<close>

fun channel_loop :: "pixel \<Rightarrow> pixel \<Rightarrow> nat list \<Rightarrow> int \<Rightarrow> error + int" where
  "channel_loop a_rgb b_rgb [] distance = Inr distance"
| "channel_loop a_rgb b_rgb (j # js) distance =
     (case getitem a_rgb j of
        Inl e \<Rightarrow> Inl e
      | Inr av \<Rightarrow>
         (case getitem b_rgb j of
            Inl e \<Rightarrow> Inl e
          | Inr bv \<Rightarrow> channel_loop a_rgb b_rgb js (distance + \<bar>av - bv\<bar>)))"

text \<open>
  The outer loop \<open>for i in range(len(pixels_a))\<close>. \<open>range\<close> of a negative number
  is empty, which is what truncating subtraction on \<open>nat\<close> gives for \<open>len(a_rgb)-3\<close>.
\<close>

fun sample_loop :: "pixel list \<Rightarrow> pixel list \<Rightarrow> nat list \<Rightarrow> int \<Rightarrow> error + int" where
  "sample_loop pixels_a pixels_b [] distance = Inr distance"
| "sample_loop pixels_a pixels_b (i # is) distance =
     (case getitem pixels_a i of
        Inl e \<Rightarrow> Inl e
      | Inr a_rgb \<Rightarrow>
         (case getitem pixels_b i of
            Inl e \<Rightarrow> Inl e
          | Inr b_rgb \<Rightarrow>
             (case channel_loop a_rgb b_rgb [0..<length a_rgb - 3] distance of
                Inl e \<Rightarrow> Inl e
              | Inr distance' \<Rightarrow> sample_loop pixels_a pixels_b is distance')))"

definition GetDistance :: "pixel list \<Rightarrow> pixel list \<Rightarrow> error + int" where
  "GetDistance pixels_a pixels_b = sample_loop pixels_a pixels_b [0..<length pixels_a] 0"

text \<open>What the two loops add up when no subscript fails.\<close>

definition pixel_distance :: "pixel \<Rightarrow> pixel \<Rightarrow> int" where
  "pixel_distance a_rgb b_rgb =
     sum_list (map (\<lambda>j. \<bar>a_rgb ! j - b_rgb ! j\<bar>) [0..<length a_rgb - 3])"

definition border_distance :: "pixel list \<Rightarrow> pixel list \<Rightarrow> int" where
  "border_distance pixels_a pixels_b =
     sum_list (map (\<lambda>i. pixel_distance (pixels_a ! i) (pixels_b ! i)) [0..<length pixels_a])"

text \<open>
  The metric in the words of the specification: the absolute difference of the first
  channel of each pair of samples, summed over the pairs.
\<close>

definition first_channel_distance :: "pixel list \<Rightarrow> pixel list \<Rightarrow> int" where
  "first_channel_distance pixels_a pixels_b =
     sum_list (map (\<lambda>(p, q). \<bar>p ! 0 - q ! 0\<bar>) (zip pixels_a pixels_b))"

text \<open>Two borders of the same pixel layout: as many samples, and as many channels in each pair.\<close>

definition same_layout :: "pixel list \<Rightarrow> pixel list \<Rightarrow> bool" where
  "same_layout pixels_a pixels_b = (map length pixels_a = map length pixels_b)"


section \<open>Rasters of the imaging library\<close>

text \<open>
  The program holds its rasters in objects of the imaging library. Of such an object the
  program uses the size (width, height), the pixel sequence of \<open>getdata()\<close> (row
  after row, \<open>width * height\<close> entries), \<open>crop\<close> and \<open>paste\<close>. \<open>im_bands\<close> is the
  number of channels of the raster's mode.
\<close>

record pil_image =
  im_size :: "nat \<times> nat"
  im_bands :: nat
  im_data :: "pixel list"

text \<open>
  Modelled from the imaging library: \<open>crop((x1, y1, x2, y2))\<close> returns a raster of
  size \<open>(x2 - x1, y2 - y1)\<close>; a pixel of the box that lies outside the source is
  zero in every channel.
\<close>

definition crop :: "pil_image \<Rightarrow> nat \<times> nat \<times> nat \<times> nat \<Rightarrow> pil_image" where
  "crop im box =
     (case box of (x1, y1, x2, y2) \<Rightarrow>
        \<lparr>im_size = (x2 - x1, y2 - y1),
         im_bands = im_bands im,
         im_data = concat (map (\<lambda>y. map (\<lambda>x.
             if x < fst (im_size im) \<and> y < snd (im_size im)
                \<and> y * fst (im_size im) + x < length (im_data im)
             then im_data im ! (y * fst (im_size im) + x)
             else replicate (im_bands im) 0) [x1..<x2]) [y1..<y2])\<rparr>)"

text \<open>
  The output raster is changed by \<open>paste\<close> only, so it is kept as the sequence of the
  paste calls made on it: the pasted raster and the destination of its upper left corner.
  A paste at \<open>(x, y)\<close> covers the columns from \<open>x\<close> up to \<open>x\<close> plus the width of
  the pasted raster.
\<close>

type_synonym canvas = "(pil_image \<times> nat \<times> nat) list"

definition paste :: "canvas \<Rightarrow> pil_image \<Rightarrow> nat \<times> nat \<Rightarrow> canvas" where
  "paste canvas im destination = canvas @ [(im, destination)]"

definition paste_columns :: "pil_image \<times> nat \<times> nat \<Rightarrow> nat list" where
  "paste_columns p = (case p of (im, x, y) \<Rightarrow> [x..<x + fst (im_size im)])"

section \<open>class Strip\<close>

text \<open>The keys \<open>'l'\<close> and \<open>'r'\<close> of the per-side dictionaries.\<close>

datatype side = L | R

text \<open>
  A Strip object. The Strip objects live in the list \<open>strips\<close> that GetStrips builds;
  a reference to a Strip (a stored neighbor, a loop variable) is its index in that list,
  and \<open>None\<close> is \<open>None\<close>. Two references are the same object exactly when the
  indices are equal: the class defines no \<open>__eq__\<close>, so \<open>==\<close> is identity.
\<close>

record strip =
  position :: nat
  strip_image :: pil_image
  image_data :: "pixel list"
  neighbors :: "side \<Rightarrow> nat option"
  min_distances :: "side \<Rightarrow> int"
  border_pixels :: "side \<Rightarrow> pixel list"

fun BORDERS :: "side \<Rightarrow> nat" where
  "BORDERS L = 0"
| "BORDERS R = STRIP_WIDTH - 1"

abbreviation GetBorderPixels :: "strip \<Rightarrow> side \<Rightarrow> pixel list" where
  "GetBorderPixels s border \<equiv> border_pixels s border"

abbreviation GetPosition :: "strip \<Rightarrow> nat" where
  "GetPosition s \<equiv> position s"

abbreviation GetRightNeighbor :: "strip \<Rightarrow> nat option" where
  "GetRightNeighbor s \<equiv> neighbors s R"

abbreviation GetLeftNeighbor :: "strip \<Rightarrow> nat option" where
  "GetLeftNeighbor s \<equiv> neighbors s L"

abbreviation GetImage :: "strip \<Rightarrow> pil_image" where
  "GetImage s \<equiv> strip_image s"

definition GetPixelValue :: "strip \<Rightarrow> nat \<Rightarrow> nat \<Rightarrow> error + pixel" where
  "GetPixelValue s x y = getitem (image_data s) (y * STRIP_WIDTH + x)"

text \<open>
  The \<open>while\<close> loop of \<open>_LoadBorder\<close>, with its variables \<open>y\<close> and
  \<open>sample_count\<close>; the strip is returned with the sample appended to its border.
\<close>

function LoadBorder_loop :: "strip \<Rightarrow> side \<Rightarrow> nat \<Rightarrow> nat \<Rightarrow> nat \<Rightarrow> error + strip" where
  "LoadBorder_loop s border x y sample_count =
     (if y < IMAGE_HEIGHT then
        (case GetPixelValue s x y of
           Inl e \<Rightarrow> Inl e
         | Inr border_pixel \<Rightarrow>
             LoadBorder_loop
               (s\<lparr>border_pixels := (border_pixels s)(border := border_pixels s border @ [border_pixel])\<rparr>)
               border x ((sample_count + 1) * SAMPLING_DISTANCE) (sample_count + 1))
      else Inr s)"
  by pat_completeness auto
termination
  by (relation "measure (\<lambda>(s, border, x, y, sample_count).
        if y < IMAGE_HEIGHT then Suc (IMAGE_HEIGHT - Suc sample_count * SAMPLING_DISTANCE) else 0)")
     (auto simp: SAMPLING_DISTANCE_def)

definition LoadBorder :: "strip \<Rightarrow> side \<Rightarrow> error + strip" where
  "LoadBorder s border = LoadBorder_loop s border (BORDERS border) 0 0"

definition LoadBorderPixels :: "strip \<Rightarrow> error + strip" where
  "LoadBorderPixels s =
     (case LoadBorder s L of
        Inl e \<Rightarrow> Inl e
      | Inr s' \<Rightarrow> LoadBorder s' R)"

definition Strip_init :: "pil_image \<Rightarrow> nat \<Rightarrow> error + strip" where
  "Strip_init img pos =
     LoadBorderPixels
       \<lparr>position = pos,
        strip_image = img,
        image_data = im_data img,
        neighbors = (\<lambda>border. None),
        min_distances = (\<lambda>border. MAX_const),
        border_pixels = (\<lambda>border. [])\<rparr>"

text \<open>
  \<open>_NeighborDistance\<close>, a method of the strip \<open>self\<close>: it reads the border of
  \<open>neighbor\<close>, and writes the two dictionaries of \<open>self\<close> when the distance is
  strictly below the stored one. It returns the distance, with the strips as they are
  after the call.
\<close>

definition NeighborDistance ::
  "strip list \<Rightarrow> nat \<Rightarrow> nat \<Rightarrow> side \<Rightarrow> side \<Rightarrow> error + strip list \<times> int" where
  "NeighborDistance strips self neighbor edge neighbor_edge =
     (let neighbor_pixels = GetBorderPixels (strips ! neighbor) neighbor_edge;
          own_pixels = GetBorderPixels (strips ! self) edge
      in case GetDistance neighbor_pixels own_pixels of
           Inl e \<Rightarrow> Inl e
         | Inr distance \<Rightarrow>
             if distance < min_distances (strips ! self) edge
             then Inr (strips[self := (strips ! self)
                         \<lparr>neighbors := (neighbors (strips ! self))(edge := Some neighbor),
                          min_distances := (min_distances (strips ! self))(edge := distance)\<rparr>],
                       distance)
             else Inr (strips, distance))"

abbreviation NeighborDistanceRight :: "strip list \<Rightarrow> nat \<Rightarrow> nat \<Rightarrow> error + strip list \<times> int" where
  "NeighborDistanceRight strips self neighbor \<equiv> NeighborDistance strips self neighbor R L"

abbreviation NeighborDistanceLeft :: "strip list \<Rightarrow> nat \<Rightarrow> nat \<Rightarrow> error + strip list \<times> int" where
  "NeighborDistanceLeft strips self neighbor \<equiv> NeighborDistance strips self neighbor L R"

section \<open>class Image\<close>

definition GetStrip :: "pil_image \<Rightarrow> nat \<Rightarrow> error + strip" where
  "GetStrip img strip_number =
     (let x1 = strip_number * STRIP_WIDTH;
          x2 = x1 + STRIP_WIDTH
      in Strip_init (crop img (x1, 0, x2, IMAGE_HEIGHT)) strip_number)"



section \<open>FindNeighbors\<close>

text \<open>
  The inner loop \<open>for inner_strip in strips\<close> for the strip \<open>strip\<close> of the outer
  loop, and the outer loop; the list argument is what is left of the iteration.
\<close>

fun FindNeighbors_inner :: "strip list \<Rightarrow> nat \<Rightarrow> nat list \<Rightarrow> error + strip list" where
  "FindNeighbors_inner strips strip [] = Inr strips"
| "FindNeighbors_inner strips strip (inner_strip # rest) =
     (if strip = inner_strip then FindNeighbors_inner strips strip rest
      else
        (case NeighborDistanceRight strips strip inner_strip of
           Inl e \<Rightarrow> Inl e
         | Inr (strips1, on_right) \<Rightarrow>
            (case NeighborDistanceLeft strips1 strip inner_strip of
               Inl e \<Rightarrow> Inl e
             | Inr (strips2, on_left) \<Rightarrow> FindNeighbors_inner strips2 strip rest)))"

fun FindNeighbors_outer :: "strip list \<Rightarrow> nat list \<Rightarrow> error + strip list" where
  "FindNeighbors_outer strips [] = Inr strips"
| "FindNeighbors_outer strips (strip # rest) =
     (case FindNeighbors_inner strips strip [0..<length strips] of
        Inl e \<Rightarrow> Inl e
      | Inr strips' \<Rightarrow> FindNeighbors_outer strips' rest)"

definition FindNeighbors :: "strip list \<Rightarrow> error + strip list" where
  "FindNeighbors strips = FindNeighbors_outer strips [0..<length strips]"

text \<open>
  The calls of \<open>_NeighborDistance\<close> that FindNeighbors makes on \<open>n\<close> strips, in
  the order it makes them, as (self, neighbor, edge, neighbor_edge); and a run of such a
  sequence of calls. The states between the calls of FindNeighbors are the results of the
  runs of the initial segments of that sequence.
\<close>

type_synonym call = "nat \<times> nat \<times> side \<times> side"

definition pair_calls :: "nat \<Rightarrow> nat \<Rightarrow> call list" where
  "pair_calls strip inner_strip =
     (if strip = inner_strip then [] else [(strip, inner_strip, R, L), (strip, inner_strip, L, R)])"

definition FindNeighbors_calls :: "nat \<Rightarrow> call list" where
  "FindNeighbors_calls n = concat (map (\<lambda>strip. concat (map (pair_calls strip) [0..<n])) [0..<n])"

fun run_calls :: "strip list \<Rightarrow> call list \<Rightarrow> error + strip list" where
  "run_calls strips [] = Inr strips"
| "run_calls strips ((self, neighbor, edge, neighbor_edge) # calls) =
     (case NeighborDistance strips self neighbor edge neighbor_edge of
        Inl e \<Rightarrow> Inl e
      | Inr (strips', distance) \<Rightarrow> run_calls strips' calls)"

section \<open>DetectLeftEdge\<close>

text \<open>
  The arguments of the logging call are evaluated first: \<open>GetPosition()\<close> of the right
  and then of the left neighbor, which raises when the neighbor is \<open>None\<close>. When the
  loop ends without a \<open>return\<close> the function returns \<open>None\<close>.
\<close>

fun DetectLeftEdge_loop :: "strip list \<Rightarrow> nat list \<Rightarrow> error + nat option" where
  "DetectLeftEdge_loop strips [] = Inr None"
| "DetectLeftEdge_loop strips (strip # rest) =
     (case GetRightNeighbor (strips ! strip) of
        None \<Rightarrow> Inl AttributeError
      | Some right_neighbor \<Rightarrow>
         (case GetLeftNeighbor (strips ! strip) of
            None \<Rightarrow> Inl AttributeError
          | Some left_neighbor \<Rightarrow>
              if GetRightNeighbor (strips ! left_neighbor) = Some strip
              then DetectLeftEdge_loop strips rest
              else Inr (Some strip)))"

definition DetectLeftEdge :: "strip list \<Rightarrow> error + nat option" where
  "DetectLeftEdge strips = DetectLeftEdge_loop strips [0..<length strips]"

section \<open>OrderStrips and the pipeline\<close>

function OrderStrips :: "strip list \<Rightarrow> canvas \<Rightarrow> nat option \<Rightarrow> nat \<Rightarrow> error + canvas" where
  "OrderStrips strips img strip count =
     (let x = count * STRIP_WIDTH
      in if x \<ge> IMAGE_WIDTH then Inr img
         else
           (case strip of
              None \<Rightarrow> Inl AttributeError
            | Some s \<Rightarrow>
                OrderStrips strips (paste img (GetImage (strips ! s)) (x, 0))
                  (GetRightNeighbor (strips ! s)) (count + 1)))"
  by pat_completeness auto
termination
  by (relation "measure (\<lambda>(strips, img, strip, count). IMAGE_WIDTH - count * STRIP_WIDTH)")
     (auto simp: STRIP_WIDTH_def)



section \<open>Notions used in the statements\<close>

fun opposite :: "side \<Rightarrow> side" where
  "opposite L = R"
| "opposite R = L"

text \<open>
  The borders of the strips, by reference and side; matching reads them and never
  writes them.
\<close>

definition borders :: "strip list \<Rightarrow> nat \<Rightarrow> side \<Rightarrow> pixel list" where
  "borders strips k border = GetBorderPixels (strips ! k) border"

text \<open>
  The score of a candidate for the side \<open>edge\<close> of the strip \<open>self\<close>: what the two
  loops of GetDistance add up for the candidate's opposite border and the strip's own.
\<close>

definition distance_of :: "(nat \<Rightarrow> side \<Rightarrow> pixel list) \<Rightarrow> nat \<Rightarrow> side \<Rightarrow> nat \<Rightarrow> int" where
  "distance_of b self edge candidate = border_distance (b candidate (opposite edge)) (b self edge)"

definition candidate_distance :: "strip list \<Rightarrow> nat \<Rightarrow> side \<Rightarrow> nat \<Rightarrow> int" where
  "candidate_distance strips = distance_of (borders strips)"

text \<open>The write of \<open>_NeighborDistance\<close> on the strip itself.\<close>

definition improve :: "side \<Rightarrow> nat \<Rightarrow> int \<Rightarrow> strip \<Rightarrow> strip" where
  "improve edge neighbor distance s =
     (if distance < min_distances s edge
      then s\<lparr>neighbors := (neighbors s)(edge := Some neighbor),
             min_distances := (min_distances s)(edge := distance)\<rparr>
      else s)"

text \<open>One pass of the inner loop body, and the whole inner loop, seen from the strip.\<close>

definition compare_with :: "(nat \<Rightarrow> side \<Rightarrow> pixel list) \<Rightarrow> nat \<Rightarrow> strip \<Rightarrow> nat \<Rightarrow> strip" where
  "compare_with b self s candidate =
     (if self = candidate then s
      else improve L candidate (distance_of b self L candidate)
             (improve R candidate (distance_of b self R candidate) s))"

definition match_strip :: "(nat \<Rightarrow> side \<Rightarrow> pixel list) \<Rightarrow> nat \<Rightarrow> nat list \<Rightarrow> strip \<Rightarrow> strip" where
  "match_strip b self candidates s = foldl (compare_with b self) s candidates"

text \<open>Keeping the best of a sequence of scored candidates, strictly smaller scores only.\<close>

fun best_step :: "(nat \<Rightarrow> int) \<Rightarrow> nat option \<times> int \<Rightarrow> nat \<Rightarrow> nat option \<times> int" where
  "best_step f (nb, md) j = (if f j < md then (Some j, f j) else (nb, md))"

text \<open>
  The strips can be matched: every left border has the pixel layout of every right
  border, so that no subscript of GetDistance fails.
\<close>

definition matchable :: "strip list \<Rightarrow> bool" where
  "matchable strips =
     list_all (\<lambda>s. list_all (\<lambda>t.
         same_layout (GetBorderPixels t L) (GetBorderPixels s R)
       \<and> same_layout (GetBorderPixels t R) (GetBorderPixels s L)) strips) strips"

text \<open>A strip as the constructor leaves its matching state.\<close>

definition unmatched :: "strip \<Rightarrow> bool" where
  "unmatched s =
     (neighbors s L = None \<and> neighbors s R = None
      \<and> min_distances s L = MAX_const \<and> min_distances s R = MAX_const)"

text \<open>No strip is its own best neighbor, on either side.\<close>

definition no_self_neighbor :: "strip list \<Rightarrow> bool" where
  "no_self_neighbor strips =
     list_all (\<lambda>k. GetLeftNeighbor (strips ! k) \<noteq> Some k \<and> GetRightNeighbor (strips ! k) \<noteq> Some k)
       [0..<length strips]"

text \<open>
  Borders of \<open>n\<close> samples of four channels each, every channel value a byte; and a
  strip with both neighbors found.
\<close>

definition byte_pixel :: "pixel \<Rightarrow> bool" where
  "byte_pixel p = (length p = 4 \<and> list_all (\<lambda>v. 0 \<le> v \<and> v \<le> 255) p)"

definition byte_border :: "nat \<Rightarrow> pixel list \<Rightarrow> bool" where
  "byte_border n pixels = (length pixels = n \<and> list_all byte_pixel pixels)"

definition byte_borders :: "nat \<Rightarrow> strip list \<Rightarrow> bool" where
  "byte_borders n strips =
     list_all (\<lambda>s. byte_border n (GetBorderPixels s L) \<and> byte_border n (GetBorderPixels s R)) strips"

definition has_neighbors :: "strip \<Rightarrow> bool" where
  "has_neighbors s = (GetLeftNeighbor s \<noteq> None \<and> GetRightNeighbor s \<noteq> None)"

text \<open>
  The reciprocity test of DetectLeftEdge for the strip \<open>k\<close>: its left neighbor's right
  neighbor is the strip itself.
\<close>

definition reciprocal :: "strip list \<Rightarrow> nat \<Rightarrow> bool" where
  "reciprocal strips k =
     (case GetLeftNeighbor (strips ! k) of
        None \<Rightarrow> False
      | Some left_neighbor \<Rightarrow> GetRightNeighbor (strips ! left_neighbor) = Some k)"

text \<open>
  The first \<open>n\<close> strips of the chain of right neighbors that starts at \<open>strip\<close>; the
  chain ends early where a right neighbor is \<open>None\<close>.
\<close>

fun chain :: "strip list \<Rightarrow> nat option \<Rightarrow> nat \<Rightarrow> nat list" where
  "chain strips strip 0 = []"
| "chain strips None (Suc n) = []"
| "chain strips (Some s) (Suc n) = s # chain strips (GetRightNeighbor (strips ! s)) n"

text \<open>The rows below \<open>h\<close> that are multiples of the sampling distance, in increasing order.\<close>

definition sample_rows :: "nat \<Rightarrow> nat list" where
  "sample_rows h = filter (\<lambda>y. y mod SAMPLING_DISTANCE = 0) [0..<h]"

text \<open>The first two steps of \<open>main\<close> on the strips: matching, then edge detection.\<close>

definition match_and_detect :: "strip list \<Rightarrow> error + nat option" where
  "match_and_detect strips =
     (case FindNeighbors strips of
        Inl e \<Rightarrow> Inl e
      | Inr strips' \<Rightarrow> DetectLeftEdge strips')"

section \<open>Small strips for the examples\<close>

text \<open>
  A strip in the state the constructor leaves, no neighbor and the sentinel distance on
  both sides, with the two borders given directly instead of sampled from an image.
\<close>

definition strip_with_borders :: "nat \<Rightarrow> pixel list \<Rightarrow> pixel list \<Rightarrow> strip" where
  "strip_with_borders pos left_border right_border =
     \<lparr>position = pos,
      strip_image = \<lparr>im_size = (0, 0), im_bands = 4, im_data = []\<rparr>,
      image_data = [],
      neighbors = (\<lambda>border. None),
      min_distances = (\<lambda>border. MAX_const),
      border_pixels = (\<lambda>border. case border of L \<Rightarrow> left_border | R \<Rightarrow> right_border)\<rparr>"

text \<open>
  Three strips of one sample each: the right border of the first fits the left borders
  of the second and of the third equally well.
\<close>

definition tie_strips :: "strip list" where
  "tie_strips =
     [strip_with_borders 0 [[1, 0, 0, 255]] [[5, 0, 0, 255]],
      strip_with_borders 1 [[5, 0, 0, 255]] [[9, 0, 0, 255]],
      strip_with_borders 2 [[5, 0, 0, 255]] [[1, 0, 0, 255]]]"

text \<open>
  A strip as matching may leave it, with the given left and right neighbor; what edge
  detection and assembly read of a strip is its neighbors and its raster.
\<close>

definition strip_with_neighbors :: "nat \<Rightarrow> nat \<Rightarrow> nat \<Rightarrow> strip" where
  "strip_with_neighbors pos left_neighbor right_neighbor =
     \<lparr>position = pos,
      strip_image = \<lparr>im_size = (STRIP_WIDTH, IMAGE_HEIGHT), im_bands = 4, im_data = []\<rparr>,
      image_data = [],
      neighbors = (\<lambda>border. case border of L \<Rightarrow> Some left_neighbor | R \<Rightarrow> Some right_neighbor),
      min_distances = (\<lambda>border. 0),
      border_pixels = (\<lambda>border. [])\<rparr>"

text \<open>
  Every strip has a right neighbor, and that neighbor is a strip of the list: what
  assembly needs of the matched strips.
\<close>

definition right_linked :: "strip list \<Rightarrow> bool" where
  "right_linked strips =
     list_all (\<lambda>s. case GetRightNeighbor s of None \<Rightarrow> False | Some r \<Rightarrow> r < length strips) strips"

text \<open>
  A matched strip whose raster is of one colour, the red value being its position, so
  that the rasters of different strips differ.
\<close>

definition solid_strip :: "nat \<Rightarrow> nat \<Rightarrow> nat \<Rightarrow> strip" where
  "solid_strip pos left_neighbor right_neighbor =
     \<lparr>position = pos,
      strip_image = \<lparr>im_size = (STRIP_WIDTH, IMAGE_HEIGHT), im_bands = 4,
                     im_data = replicate (STRIP_WIDTH * IMAGE_HEIGHT) [int pos, 0, 0, 255]\<rparr>,
      image_data = replicate (STRIP_WIDTH * IMAGE_HEIGHT) [int pos, 0, 0, 255],
      neighbors = (\<lambda>border. case border of L \<Rightarrow> Some left_neighbor | R \<Rightarrow> Some right_neighbor),
      min_distances = (\<lambda>border. 0),
      border_pixels = (\<lambda>border. replicate 180 [int pos, 0, 0, 255])\<rparr>"

text \<open>
  The strip that GetStrip builds for the number \<open>strip_number\<close>: the crop of the
  raster, no neighbor, the sentinel distance, and the two sampled edge columns.
\<close>

definition cut_strip :: "pil_image \<Rightarrow> nat \<Rightarrow> strip" where
  "cut_strip img strip_number =
     \<lparr>position = strip_number,
      strip_image = crop img (strip_number * STRIP_WIDTH, 0,
                              strip_number * STRIP_WIDTH + STRIP_WIDTH, IMAGE_HEIGHT),
      image_data = im_data (crop img (strip_number * STRIP_WIDTH, 0,
                              strip_number * STRIP_WIDTH + STRIP_WIDTH, IMAGE_HEIGHT)),
      neighbors = (\<lambda>border. None),
      min_distances = (\<lambda>border. MAX_const),
      border_pixels = (\<lambda>border.
         map (\<lambda>y. im_data (crop img (strip_number * STRIP_WIDTH, 0,
                              strip_number * STRIP_WIDTH + STRIP_WIDTH, IMAGE_HEIGHT))
                    ! (y * STRIP_WIDTH + BORDERS border))
           (sample_rows IMAGE_HEIGHT))\<rparr>"




section \<open>Properties of GetDistance\<close>

lemma channel_loop_sum:
  "list_all (\<lambda>j. j < length a_rgb \<and> j < length b_rgb) js \<Longrightarrow>
   channel_loop a_rgb b_rgb js d = Inr (d + sum_list (map (\<lambda>j. \<bar>a_rgb ! j - b_rgb ! j\<bar>) js))"
  by (induction js arbitrary: d) (simp_all add: getitem_def)

lemma channel_loop_range:
  assumes "length a_rgb - 3 \<le> length b_rgb"
  shows "channel_loop a_rgb b_rgb [0..<length a_rgb - 3] d = Inr (d + pixel_distance a_rgb b_rgb)"
proof -
  have "list_all (\<lambda>j. j < length a_rgb \<and> j < length b_rgb) [0..<length a_rgb - 3]"
    using assms by (auto simp: list_all_iff)
  then show ?thesis
    unfolding pixel_distance_def by (rule channel_loop_sum)
qed

lemma sample_loop_sum:
  "list_all (\<lambda>i. i < length pa \<and> i < length pb \<and> length (pa ! i) - 3 \<le> length (pb ! i)) is \<Longrightarrow>
   sample_loop pa pb is d =
     Inr (d + sum_list (map (\<lambda>i. pixel_distance (pa ! i) (pb ! i)) is))"
  by (induction "is" arbitrary: d) (simp_all add: getitem_def channel_loop_range)

lemma GetDistance_border_distance:
  assumes "length pa \<le> length pb"
    and "\<And>i. i < length pa \<Longrightarrow> length (pa ! i) - 3 \<le> length (pb ! i)"
  shows "GetDistance pa pb = Inr (border_distance pa pb)"
proof -
  have "list_all (\<lambda>i. i < length pa \<and> i < length pb \<and> length (pa ! i) - 3 \<le> length (pb ! i))
          [0..<length pa]"
    using assms by (auto simp: list_all_iff)
  then show ?thesis
    unfolding GetDistance_def border_distance_def by (simp add: sample_loop_sum)
qed

lemma same_layout_nth:
  assumes "same_layout pa pb"
  shows "length pa = length pb" and "i < length pa \<Longrightarrow> length (pa ! i) = length (pb ! i)"
proof -
  show len: "length pa = length pb"
    using assms unfolding same_layout_def by (rule map_eq_imp_length_eq)
  assume "i < length pa"
  then have "map length pa ! i = length (pa ! i)" "map length pb ! i = length (pb ! i)"
    using len by simp_all
  then show "length (pa ! i) = length (pb ! i)"
    using assms unfolding same_layout_def by simp
qed

lemma GetDistance_same_layout:
  assumes "same_layout pa pb"
  shows "GetDistance pa pb = Inr (border_distance pa pb)"
  using same_layout_nth [OF assms] by (intro GetDistance_border_distance) simp_all

lemma pixel_distance_nonneg: "0 \<le> pixel_distance p q"
  unfolding pixel_distance_def by (rule sum_list_nonneg) auto

lemma border_distance_nonneg: "0 \<le> border_distance pa pb"
  unfolding border_distance_def by (rule sum_list_nonneg) (auto simp: pixel_distance_nonneg)

lemma pixel_distance_four:
  "length p = 4 \<Longrightarrow> pixel_distance p q = \<bar>p ! 0 - q ! 0\<bar>"
  by (simp add: pixel_distance_def)

lemma pixel_distance_three:
  "length p = 3 \<Longrightarrow> pixel_distance p q = 0"
  by (simp add: pixel_distance_def)

lemma map_index_zip:
  "length xs = length ys \<Longrightarrow>
   map (\<lambda>i. f (xs ! i) (ys ! i)) [0..<length xs] = map (\<lambda>(x, y). f x y) (zip xs ys)"
  by (rule nth_equalityI) simp_all

lemma border_distance_four:
  assumes "length pa = length pb" and "list_all (\<lambda>p. length p = 4) pa"
  shows "border_distance pa pb = first_channel_distance pa pb"
proof -
  have "map (\<lambda>i. pixel_distance (pa ! i) (pb ! i)) [0..<length pa]
      = map (\<lambda>i. \<bar>pa ! i ! 0 - pb ! i ! 0\<bar>) [0..<length pa]"
    using assms(2) by (auto simp: list_all_length pixel_distance_four)
  also have "\<dots> = map (\<lambda>(p, q). \<bar>p ! 0 - q ! 0\<bar>) (zip pa pb)"
    using assms(1) by (rule map_index_zip)
  finally show ?thesis
    unfolding border_distance_def first_channel_distance_def by simp
qed

lemma first_channel_distance_nonneg: "0 \<le> first_channel_distance pa pb"
  unfolding first_channel_distance_def by (rule sum_list_nonneg) auto

text \<open>
  C1, as stated, at three-channel pixels: the red values differ by 10, and the function
  returns 0.
\<close>

theorem C1_three_channel_counterexample:
  "GetDistance [[10, 0, 0]] [[20, 0, 0]] = Inr 0
   \<and> first_channel_distance [[10, 0, 0]] [[20, 0, 0]] = 10
   \<and> GetDistance [[10, 0, 0]] [[20, 0, 0]]
       \<noteq> Inr (first_channel_distance [[10, 0, 0]] [[20, 0, 0]])"
  by (simp add: GetDistance_def getitem_def first_channel_distance_def)

text \<open>
  C1 (amended): for two equal-length sequences of four-channel pixels (red, green, blue,
  alpha), GetDistance returns a non-negative number, the sum over the paired samples of
  the absolute difference of the first channel; the other three channels do not enter it.
\<close>

theorem C1_GetDistance_four_channels:
  assumes "length pixels_a = length pixels_b"
    and "list_all (\<lambda>p. length p = 4) pixels_a"
    and "list_all (\<lambda>q. length q = 4) pixels_b"
  shows "GetDistance pixels_a pixels_b = Inr (first_channel_distance pixels_a pixels_b)
         \<and> 0 \<le> first_channel_distance pixels_a pixels_b"
proof -
  have "same_layout pixels_a pixels_b"
    unfolding same_layout_def using assms
    by (intro nth_equalityI) (simp_all add: list_all_length)
  then have "GetDistance pixels_a pixels_b = Inr (border_distance pixels_a pixels_b)"
    by (rule GetDistance_same_layout)
  then show ?thesis
    using border_distance_four [OF assms(1,2)] first_channel_distance_nonneg by simp
qed

theorem C1_GetDistance_four_channels_witness:
  "GetDistance [[10, 1, 2, 3], [7, 0, 0, 255]] [[25, 9, 9, 9], [4, 8, 8, 0]] = Inr 18
   \<and> first_channel_distance [[10, 1, 2, 3], [7, 0, 0, 255]] [[25, 9, 9, 9], [4, 8, 8, 0]] = 18"
  using C1_GetDistance_four_channels
    [of "[[10, 1, 2, 3], [7, 0, 0, 255]]" "[[25, 9, 9, 9], [4, 8, 8, 0]]"]
  by (simp add: first_channel_distance_def)

lemma pixel_distance_commute:
  "length p = length q \<Longrightarrow> pixel_distance p q = pixel_distance q p"
  by (simp add: pixel_distance_def abs_minus_commute)

lemma border_distance_commute:
  assumes "same_layout pa pb"
  shows "border_distance pa pb = border_distance pb pa"
proof -
  have len: "length pb = length pa"
    using same_layout_nth(1) [OF assms] by simp
  have eq: "map (\<lambda>i. pixel_distance (pa ! i) (pb ! i)) [0..<length pa]
      = map (\<lambda>i. pixel_distance (pb ! i) (pa ! i)) [0..<length pa]"
    using same_layout_nth(2) [OF assms] by (auto intro: pixel_distance_commute)
  show ?thesis
    unfolding border_distance_def len eq by (rule refl)
qed

lemma same_layout_sym: "same_layout pa pb \<Longrightarrow> same_layout pb pa"
  by (simp add: same_layout_def)

text \<open>
  C8: for two borders of equal length whose paired pixels have the same number of
  channels (the same channel selection applies to both), the distance does not depend on
  the order of the arguments.
\<close>

theorem C8_GetDistance_symmetric:
  assumes "same_layout pixels_a pixels_b"
  shows "GetDistance pixels_a pixels_b = GetDistance pixels_b pixels_a"
proof -
  have "GetDistance pixels_a pixels_b = Inr (border_distance pixels_a pixels_b)"
    using assms by (rule GetDistance_same_layout)
  moreover have "GetDistance pixels_b pixels_a = Inr (border_distance pixels_b pixels_a)"
    using same_layout_sym [OF assms] by (rule GetDistance_same_layout)
  ultimately show ?thesis
    using border_distance_commute [OF assms] by simp
qed

theorem C8_GetDistance_symmetric_witness:
  "same_layout [[1, 2, 3, 4], [9, 9, 9, 9, 9]] [[5, 5, 5, 5], [0, 3, 0, 0, 0]]
   \<and> GetDistance [[1, 2, 3, 4], [9, 9, 9, 9, 9]] [[5, 5, 5, 5], [0, 3, 0, 0, 0]] = Inr 19
   \<and> GetDistance [[5, 5, 5, 5], [0, 3, 0, 0, 0]] [[1, 2, 3, 4], [9, 9, 9, 9, 9]] = Inr 19"
  using C8_GetDistance_symmetric
    [of "[[1, 2, 3, 4], [9, 9, 9, 9, 9]]" "[[5, 5, 5, 5], [0, 3, 0, 0, 0]]"]
  by (simp add: same_layout_def GetDistance_def getitem_def)

text \<open>
  C9: for two equal-length sequences of three-channel pixels the distance is 0 whatever
  the pixels hold, since the channels that count are those with index below the tuple
  length minus three.
\<close>

theorem C9_GetDistance_three_channels:
  assumes "length pixels_a = length pixels_b"
    and "list_all (\<lambda>p. length p = 3) pixels_a"
    and "list_all (\<lambda>q. length q = 3) pixels_b"
  shows "GetDistance pixels_a pixels_b = Inr 0"
proof -
  have three: "\<And>i. i < length pixels_a \<Longrightarrow> length (pixels_a ! i) = 3"
    using assms(2) by (simp add: list_all_length)
  have "GetDistance pixels_a pixels_b = Inr (border_distance pixels_a pixels_b)"
    using assms(1) three by (intro GetDistance_border_distance) simp_all
  moreover have eq: "map (\<lambda>i. pixel_distance (pixels_a ! i) (pixels_b ! i)) [0..<length pixels_a]
      = map (\<lambda>i. 0) [0..<length pixels_a]"
    using three by (auto simp: pixel_distance_three)
  have "border_distance pixels_a pixels_b = 0"
    unfolding border_distance_def eq by simp
  ultimately show ?thesis by simp
qed

theorem C9_GetDistance_three_channels_witness:
  "GetDistance [[255, 0, 0], [12, 34, 56]] [[0, 255, 255], [200, 100, 0]] = Inr 0"
  using C9_GetDistance_three_channels
    [of "[[255, 0, 0], [12, 34, 56]]" "[[0, 255, 255], [200, 100, 0]]"]
  by simp
section \<open>The matching pass\<close>

lemma opposite_opposite [simp]: "opposite (opposite e) = e"
  by (cases e) simp_all

lemma matchable_nth:
  assumes "matchable strips" and "i < length strips" and "j < length strips"
  shows "same_layout (borders strips j (opposite e)) (borders strips i e)"
  using assms unfolding matchable_def borders_def
  by (cases e) (simp_all add: list_all_length)

lemma matchable_borders:
  assumes "matchable strips" and "length strips' = length strips"
    and "borders strips' = borders strips"
  shows "matchable strips'"
proof -
  have b: "\<And>k e. GetBorderPixels (strips' ! k) e = GetBorderPixels (strips ! k) e"
    using assms(3) by (simp add: borders_def fun_eq_iff)
  show ?thesis
    using assms(1,2) unfolding matchable_def by (simp add: list_all_length b)
qed

lemma improve_border_pixels [simp]: "border_pixels (improve e j d s) = border_pixels s"
  by (simp add: improve_def)

lemma compare_with_border_pixels [simp]: "border_pixels (compare_with b i s j) = border_pixels s"
  by (simp add: compare_with_def)

lemma match_strip_border_pixels [simp]: "border_pixels (match_strip b i js s) = border_pixels s"
  unfolding match_strip_def by (induction js arbitrary: s) simp_all

lemma borders_update:
  assumes "border_pixels x = border_pixels (strips ! i)"
  shows "borders (strips[i := x]) = borders strips"
proof (intro ext)
  fix k e
  show "borders (strips[i := x]) k e = borders strips k e"
  proof (cases "i < length strips")
    case True
    then show ?thesis using assms by (simp add: borders_def nth_list_update)
  next
    case False
    then have "strips[i := x] = strips" by (simp add: list_update_beyond)
    then show ?thesis by simp
  qed
qed

lemma NeighborDistance_improve:
  assumes "same_layout (borders strips j ne) (borders strips i e)"
  shows "NeighborDistance strips i j e ne =
           Inr (strips[i := improve e j (border_distance (borders strips j ne) (borders strips i e))
                               (strips ! i)],
                border_distance (borders strips j ne) (borders strips i e))"
  using GetDistance_same_layout [OF assms]
  by (simp add: NeighborDistance_def Let_def improve_def borders_def)

lemma FindNeighbors_body:
  assumes "matchable strips" and "i < length strips" and "j < length strips" and "i \<noteq> j"
  shows "NeighborDistanceRight strips i j =
           Inr (strips[i := improve R j (distance_of (borders strips) i R j) (strips ! i)],
                distance_of (borders strips) i R j)"
    and "NeighborDistanceLeft (strips[i := improve R j (distance_of (borders strips) i R j) (strips ! i)]) i j =
           Inr (strips[i := compare_with (borders strips) i (strips ! i) j],
                distance_of (borders strips) i L j)"
proof -
  let ?s1 = "strips[i := improve R j (distance_of (borders strips) i R j) (strips ! i)]"
  have layR: "same_layout (borders strips j L) (borders strips i R)"
    using matchable_nth [OF assms(1-3), of R] by simp
  show "NeighborDistanceRight strips i j = Inr (?s1, distance_of (borders strips) i R j)"
    using NeighborDistance_improve [OF layR] by (simp add: distance_of_def)
  have b1: "borders ?s1 = borders strips"
    by (rule borders_update) simp
  have layL: "same_layout (borders ?s1 j R) (borders ?s1 i L)"
    unfolding b1 using matchable_nth [OF assms(1-3), of L] by simp
  have nd: "NeighborDistanceLeft ?s1 i j =
      Inr (?s1[i := improve L j (border_distance (borders ?s1 j R) (borders ?s1 i L)) (?s1 ! i)],
           border_distance (borders ?s1 j R) (borders ?s1 i L))"
    by (rule NeighborDistance_improve [OF layL])
  have dL: "border_distance (borders ?s1 j R) (borders ?s1 i L) = distance_of (borders strips) i L j"
    unfolding b1 by (simp add: distance_of_def)
  have nth: "?s1 ! i = improve R j (distance_of (borders strips) i R j) (strips ! i)"
    using assms(2) by simp
  have cw: "compare_with (borders strips) i (strips ! i) j =
      improve L j (distance_of (borders strips) i L j)
        (improve R j (distance_of (borders strips) i R j) (strips ! i))"
    using assms(4) by (simp add: compare_with_def)
  show "NeighborDistanceLeft ?s1 i j =
          Inr (strips[i := compare_with (borders strips) i (strips ! i) j],
               distance_of (borders strips) i L j)"
    unfolding nd dL nth cw by simp
qed

lemma FindNeighbors_inner_match:
  assumes "matchable strips" and "i < length strips" and "list_all (\<lambda>j. j < length strips) js"
  shows "FindNeighbors_inner strips i js =
           Inr (strips[i := match_strip (borders strips) i js (strips ! i)])"
  using assms
proof (induction js arbitrary: strips)
  case Nil
  then show ?case by (simp add: match_strip_def)
next
  case (Cons j js)
  show ?case
  proof (cases "i = j")
    case True
    then show ?thesis
      using Cons by (simp add: match_strip_def compare_with_def)
  next
    case False
    let ?s2 = "strips[i := compare_with (borders strips) i (strips ! i) j]"
    have j: "j < length strips" using Cons.prems(3) by simp
    have b2: "borders ?s2 = borders strips"
      by (rule borders_update) simp
    have m2: "matchable ?s2"
      by (rule matchable_borders [OF Cons.prems(1) _ b2]) simp
    have "FindNeighbors_inner ?s2 i js =
            Inr (?s2[i := match_strip (borders ?s2) i js (?s2 ! i)])"
      using Cons.prems(2,3) by (intro Cons.IH m2) simp_all
    then have "FindNeighbors_inner ?s2 i js =
            Inr (strips[i := match_strip (borders strips) i (j # js) (strips ! i)])"
      using Cons.prems(2) by (simp add: b2 match_strip_def)
    then show ?thesis
      using FindNeighbors_body [OF Cons.prems(1,2) j False] False by simp
  qed
qed

lemma FindNeighbors_outer_match:
  assumes "matchable strips" and "distinct is" and "list_all (\<lambda>i. i < length strips) is"
  shows "\<exists>strips'. FindNeighbors_outer strips is = Inr strips'
           \<and> length strips' = length strips
           \<and> borders strips' = borders strips
           \<and> (\<forall>k<length strips. strips' ! k =
                (if k \<in> set is
                 then match_strip (borders strips) k [0..<length strips] (strips ! k)
                 else strips ! k))"
  using assms
proof (induction "is" arbitrary: strips)
  case Nil
  then show ?case by simp
next
  case (Cons i "is")
  let ?n = "length strips"
  let ?s1 = "strips[i := match_strip (borders strips) i [0..<?n] (strips ! i)]"
  have i: "i < ?n" using Cons.prems(3) by simp
  have inner: "FindNeighbors_inner strips i [0..<?n] = Inr ?s1"
    using Cons.prems(1) i by (intro FindNeighbors_inner_match) (simp_all add: list_all_iff)
  have b1: "borders ?s1 = borders strips"
    by (rule borders_update) simp
  have m1: "matchable ?s1"
    by (rule matchable_borders [OF Cons.prems(1) _ b1]) simp
  obtain strips' where run: "FindNeighbors_outer ?s1 is = Inr strips'"
    and len: "length strips' = length ?s1" and b': "borders strips' = borders ?s1"
    and nth: "\<forall>k<length ?s1. strips' ! k =
                (if k \<in> set is
                 then match_strip (borders ?s1) k [0..<length ?s1] (?s1 ! k)
                 else ?s1 ! k)"
    using Cons.IH [OF m1] Cons.prems(2,3) by auto
  have "\<forall>k<?n. strips' ! k =
          (if k \<in> set (i # is)
           then match_strip (borders strips) k [0..<?n] (strips ! k)
           else strips ! k)"
  proof (intro allI impI)
    fix k assume k: "k < ?n"
    show "strips' ! k =
          (if k \<in> set (i # is)
           then match_strip (borders strips) k [0..<?n] (strips ! k)
           else strips ! k)"
    proof (cases "k = i")
      case True
      then have "k \<notin> set is" using Cons.prems(2) by simp
      then show ?thesis using nth k True by simp
    next
      case False
      then show ?thesis using nth k by (simp add: b1)
    qed
  qed
  then show ?case
    using inner run len b' b1 by simp
qed

lemma FindNeighbors_match:
  assumes "matchable strips"
  shows "\<exists>strips'. FindNeighbors strips = Inr strips'
           \<and> length strips' = length strips
           \<and> borders strips' = borders strips
           \<and> (\<forall>k<length strips. strips' ! k =
                match_strip (borders strips) k [0..<length strips] (strips ! k))"
proof -
  have "list_all (\<lambda>i. i < length strips) [0..<length strips]"
    by (simp add: list_all_iff)
  from FindNeighbors_outer_match [OF assms _ this]
  show ?thesis unfolding FindNeighbors_def by auto
qed

section \<open>What matching leaves in a strip\<close>

lemma improve_neighbors:
  "neighbors (improve e j d s) e' =
     (if e' = e \<and> d < min_distances s e then Some j else neighbors s e')"
  by (simp add: improve_def)

lemma improve_min_distances:
  "min_distances (improve e j d s) e' =
     (if e' = e \<and> d < min_distances s e then d else min_distances s e')"
  by (simp add: improve_def)

lemma compare_with_side:
  "(neighbors (compare_with b i s j) e, min_distances (compare_with b i s j) e) =
     (if i = j then (neighbors s e, min_distances s e)
      else best_step (distance_of b i e) (neighbors s e, min_distances s e) j)"
  by (cases e) (simp_all add: compare_with_def improve_neighbors improve_min_distances)

lemma match_strip_side:
  "(neighbors (match_strip b i js s) e, min_distances (match_strip b i js s) e) =
     foldl (best_step (distance_of b i e)) (neighbors s e, min_distances s e)
       (filter (\<lambda>j. j \<noteq> i) js)"
proof (induction js arbitrary: s)
  case Nil
  then show ?case by (simp add: match_strip_def)
next
  case (Cons j js)
  have "match_strip b i (j # js) s = match_strip b i js (compare_with b i s j)"
    by (simp add: match_strip_def)
  then show ?case
    using Cons [of "compare_with b i s j"] by (simp add: compare_with_side)
qed

lemma best_fold:
  assumes "sorted_wrt (<) js"
  shows "case foldl (best_step f) (n0, m0) js of (nb, md) \<Rightarrow>
           md \<le> m0 \<and> (\<forall>j\<in>set js. md \<le> f j)
         \<and> ((nb = n0 \<and> md = m0)
            \<or> (\<exists>k\<in>set js. nb = Some k \<and> md = f k \<and> f k < m0
                 \<and> (\<forall>j\<in>set js. j < k \<longrightarrow> f k < f j)))"
  using assms
proof (induction js rule: rev_induct)
  case Nil
  then show ?case by simp
next
  case (snoc j js)
  obtain nb md where fold: "foldl (best_step f) (n0, m0) js = (nb, md)"
    by (cases "foldl (best_step f) (n0, m0) js")
  have before: "\<forall>x\<in>set js. x < j" and sorted: "sorted_wrt (<) js"
    using snoc.prems by (auto simp: sorted_wrt_append)
  have ih: "md \<le> m0" "\<forall>x\<in>set js. md \<le> f x"
    "(nb = n0 \<and> md = m0)
       \<or> (\<exists>k\<in>set js. nb = Some k \<and> md = f k \<and> f k < m0 \<and> (\<forall>x\<in>set js. x < k \<longrightarrow> f k < f x))"
    using snoc.IH [OF sorted] fold by simp_all
  show ?case
  proof (cases "f j < md")
    case True
    then have "\<forall>x\<in>set js. f j < f x" using ih(2) by fastforce
    then show ?thesis using True ih(1) fold by auto
  next
    case False
    from ih(3) show ?thesis
    proof
      assume "nb = n0 \<and> md = m0"
      then show ?thesis using False ih(1,2) fold by auto
    next
      assume "\<exists>k\<in>set js. nb = Some k \<and> md = f k \<and> f k < m0 \<and> (\<forall>x\<in>set js. x < k \<longrightarrow> f k < f x)"
      then obtain k where k: "k \<in> set js" "nb = Some k" "md = f k" "f k < m0"
        "\<forall>x\<in>set js. x < k \<longrightarrow> f k < f x"
        by blast
      have "\<not> j < k" using before k(1) by fastforce
      then have "\<forall>x\<in>set (js @ [j]). x < k \<longrightarrow> f k < f x" using k(5) by auto
      then show ?thesis using False ih(1,2) fold k(1-4) by auto
    qed
  qed
qed

lemma match_strip_best:
  fixes strips :: "strip list"
  defines "n \<equiv> length strips"
  assumes "i < n"
  shows "min_distances (match_strip b i [0..<n] s) e \<le> min_distances s e"
    and "\<forall>j<n. j \<noteq> i \<longrightarrow> min_distances (match_strip b i [0..<n] s) e \<le> distance_of b i e j"
    and "(neighbors (match_strip b i [0..<n] s) e = neighbors s e
          \<and> min_distances (match_strip b i [0..<n] s) e = min_distances s e)
       \<or> (\<exists>k<n. k \<noteq> i \<and> neighbors (match_strip b i [0..<n] s) e = Some k
            \<and> min_distances (match_strip b i [0..<n] s) e = distance_of b i e k
            \<and> distance_of b i e k < min_distances s e
            \<and> (\<forall>j<k. j \<noteq> i \<longrightarrow> distance_of b i e k < distance_of b i e j))"
proof -
  let ?js = "filter (\<lambda>j. j \<noteq> i) [0..<n]"
  let ?f = "distance_of b i e"
  let ?m = "match_strip b i [0..<n] s"
  have sorted: "sorted_wrt (<) ?js"
    by (intro sorted_wrt_filter) simp
  have set: "set ?js = {j. j < n \<and> j \<noteq> i}" by auto
  have fold: "foldl (best_step ?f) (neighbors s e, min_distances s e) ?js
      = (neighbors ?m e, min_distances ?m e)"
    by (simp add: match_strip_side)
  note facts = best_fold [OF sorted, where f = ?f and ?n0.0 = "neighbors s e"
      and ?m0.0 = "min_distances s e", unfolded fold, simplified, unfolded set]
  show "min_distances ?m e \<le> min_distances s e"
    using facts by simp
  show "\<forall>j<n. j \<noteq> i \<longrightarrow> min_distances ?m e \<le> ?f j"
    using facts by simp
  show "(neighbors ?m e = neighbors s e \<and> min_distances ?m e = min_distances s e)
       \<or> (\<exists>k<n. k \<noteq> i \<and> neighbors ?m e = Some k \<and> min_distances ?m e = ?f k
            \<and> ?f k < min_distances s e \<and> (\<forall>j<k. j \<noteq> i \<longrightarrow> ?f k < ?f j))"
    using facts by auto
qed

lemma FindNeighbors_kept:
  assumes "matchable strips"
  shows "\<exists>strips'. FindNeighbors strips = Inr strips' \<and> length strips' = length strips
      \<and> borders strips' = borders strips
      \<and> (\<forall>i<length strips. \<forall>e.
            min_distances (strips' ! i) e \<le> min_distances (strips ! i) e
          \<and> (\<forall>j<length strips. j \<noteq> i \<longrightarrow>
                min_distances (strips' ! i) e \<le> candidate_distance strips i e j)
          \<and> ((neighbors (strips' ! i) e = neighbors (strips ! i) e
               \<and> min_distances (strips' ! i) e = min_distances (strips ! i) e)
             \<or> (\<exists>k<length strips. k \<noteq> i \<and> neighbors (strips' ! i) e = Some k
                  \<and> min_distances (strips' ! i) e = candidate_distance strips i e k
                  \<and> candidate_distance strips i e k < min_distances (strips ! i) e
                  \<and> (\<forall>j<k. j \<noteq> i \<longrightarrow>
                        candidate_distance strips i e k < candidate_distance strips i e j))))"
proof -
  from FindNeighbors_match [OF assms] obtain strips' where
    s: "FindNeighbors strips = Inr strips'" "length strips' = length strips"
      "borders strips' = borders strips"
      "\<forall>k<length strips. strips' ! k
          = match_strip (borders strips) k [0..<length strips] (strips ! k)"
    by blast
  have "min_distances (strips' ! i) e \<le> min_distances (strips ! i) e
          \<and> (\<forall>j<length strips. j \<noteq> i \<longrightarrow>
                min_distances (strips' ! i) e \<le> candidate_distance strips i e j)
          \<and> ((neighbors (strips' ! i) e = neighbors (strips ! i) e
               \<and> min_distances (strips' ! i) e = min_distances (strips ! i) e)
             \<or> (\<exists>k<length strips. k \<noteq> i \<and> neighbors (strips' ! i) e = Some k
                  \<and> min_distances (strips' ! i) e = candidate_distance strips i e k
                  \<and> candidate_distance strips i e k < min_distances (strips ! i) e
                  \<and> (\<forall>j<k. j \<noteq> i \<longrightarrow>
                        candidate_distance strips i e k < candidate_distance strips i e j)))"
    if i: "i < length strips" for i e
  proof -
    have eq: "strips' ! i = match_strip (borders strips) i [0..<length strips] (strips ! i)"
      using s(4) i by simp
    show ?thesis
      unfolding eq candidate_distance_def
      using match_strip_best [OF i, of "borders strips" "strips ! i" e] by blast
  qed
  then show ?thesis using s(1-3) by blast
qed

lemma GetDistance_candidate:
  assumes "matchable strips" and "i < length strips" and "j < length strips"
  shows "GetDistance (borders strips j (opposite e)) (borders strips i e)
           = Inr (candidate_distance strips i e j)"
  unfolding candidate_distance_def distance_of_def
  by (rule GetDistance_same_layout) (rule matchable_nth [OF assms])

lemma NeighborDistance_not_below:
  assumes "GetDistance (borders strips neighbor neighbor_edge) (borders strips self edge)
             = Inr distance"
    and "min_distances (strips ! self) edge \<le> distance"
  shows "NeighborDistance strips self neighbor edge neighbor_edge = Inr (strips, distance)"
  using assms by (simp add: NeighborDistance_def borders_def)

text \<open>
  C2: on strips whose borders can be compared and that are in the state the constructor
  leaves, FindNeighbors returns, and for each strip and each side the stored distance is a
  lower bound of the scores of all other strips, each score being what GetDistance returns
  for that candidate. The stored neighbor is another strip, the stored distance is its
  score, that score is strictly below the sentinel \<open>10 ^ 9\<close>, and every other strip
  visited before it scores strictly more: among equal smallest scores the first visited
  is kept. No neighbor is stored only when no score is below the sentinel, which is then
  still the stored distance. In any state, a call of \<open>_NeighborDistance\<close> whose distance
  is equal to (or above) the stored one leaves every strip as it was.
\<close>

theorem C2_FindNeighbors_first_minimum:
  assumes "matchable strips" and "list_all unmatched strips"
  shows "\<exists>strips'. FindNeighbors strips = Inr strips' \<and> length strips' = length strips
      \<and> (\<forall>i<length strips. \<forall>edge.
            (\<forall>j<length strips. j \<noteq> i \<longrightarrow>
                GetDistance (borders strips j (opposite edge)) (borders strips i edge)
                  = Inr (candidate_distance strips i edge j)
              \<and> min_distances (strips' ! i) edge \<le> candidate_distance strips i edge j)
          \<and> (case neighbors (strips' ! i) edge of
                None \<Rightarrow> min_distances (strips' ! i) edge = MAX_const
              | Some k \<Rightarrow> k < length strips \<and> k \<noteq> i
                  \<and> min_distances (strips' ! i) edge = candidate_distance strips i edge k
                  \<and> candidate_distance strips i edge k < MAX_const
                  \<and> (\<forall>j<k. j \<noteq> i \<longrightarrow>
                        candidate_distance strips i edge k < candidate_distance strips i edge j)))
      \<and> (\<forall>state self neighbor e neighbor_edge distance.
            GetDistance (borders state neighbor neighbor_edge) (borders state self e)
              = Inr distance
            \<and> min_distances (state ! self) e \<le> distance
            \<longrightarrow> NeighborDistance state self neighbor e neighbor_edge = Inr (state, distance))"
proof -
  from FindNeighbors_kept [OF assms(1)] obtain strips' where
    s: "FindNeighbors strips = Inr strips'" "length strips' = length strips"
    and kept: "\<forall>i<length strips. \<forall>e.
            min_distances (strips' ! i) e \<le> min_distances (strips ! i) e
          \<and> (\<forall>j<length strips. j \<noteq> i \<longrightarrow>
                min_distances (strips' ! i) e \<le> candidate_distance strips i e j)
          \<and> ((neighbors (strips' ! i) e = neighbors (strips ! i) e
               \<and> min_distances (strips' ! i) e = min_distances (strips ! i) e)
             \<or> (\<exists>k<length strips. k \<noteq> i \<and> neighbors (strips' ! i) e = Some k
                  \<and> min_distances (strips' ! i) e = candidate_distance strips i e k
                  \<and> candidate_distance strips i e k < min_distances (strips ! i) e
                  \<and> (\<forall>j<k. j \<noteq> i \<longrightarrow>
                        candidate_distance strips i e k < candidate_distance strips i e j)))"
    by blast
  have fresh: "neighbors (strips ! i) e = None \<and> min_distances (strips ! i) e = MAX_const"
    if "i < length strips" for i e
    using assms(2) that by (cases e) (auto simp: list_all_length unmatched_def)
  have side: "(\<forall>j<length strips. j \<noteq> i \<longrightarrow>
                GetDistance (borders strips j (opposite e)) (borders strips i e)
                  = Inr (candidate_distance strips i e j)
              \<and> min_distances (strips' ! i) e \<le> candidate_distance strips i e j)
          \<and> (case neighbors (strips' ! i) e of
                None \<Rightarrow> min_distances (strips' ! i) e = MAX_const
              | Some k \<Rightarrow> k < length strips \<and> k \<noteq> i
                  \<and> min_distances (strips' ! i) e = candidate_distance strips i e k
                  \<and> candidate_distance strips i e k < MAX_const
                  \<and> (\<forall>j<k. j \<noteq> i \<longrightarrow>
                        candidate_distance strips i e k < candidate_distance strips i e j))"
    if i: "i < length strips" for i e
  proof -
    note k = kept [rule_format, OF i, of e]
    have "\<forall>j<length strips. j \<noteq> i \<longrightarrow>
                GetDistance (borders strips j (opposite e)) (borders strips i e)
                  = Inr (candidate_distance strips i e j)
              \<and> min_distances (strips' ! i) e \<le> candidate_distance strips i e j"
      using k GetDistance_candidate [OF assms(1) i] by blast
    moreover have "case neighbors (strips' ! i) e of
                None \<Rightarrow> min_distances (strips' ! i) e = MAX_const
              | Some k \<Rightarrow> k < length strips \<and> k \<noteq> i
                  \<and> min_distances (strips' ! i) e = candidate_distance strips i e k
                  \<and> candidate_distance strips i e k < MAX_const
                  \<and> (\<forall>j<k. j \<noteq> i \<longrightarrow>
                        candidate_distance strips i e k < candidate_distance strips i e j)"
      using k fresh [OF i, of e] by (auto split: option.splits)
    ultimately show ?thesis by blast
  qed
  show ?thesis
    using s side NeighborDistance_not_below by blast
qed

theorem C2_FindNeighbors_first_minimum_witness:
  "matchable tie_strips \<and> list_all unmatched tie_strips
   \<and> candidate_distance tie_strips 0 R 1 = 0 \<and> candidate_distance tie_strips 0 R 2 = 0
   \<and> (\<exists>strips'. FindNeighbors tie_strips = Inr strips'
        \<and> neighbors (strips' ! 0) R = Some 1 \<and> min_distances (strips' ! 0) R = 0)"
proof -
  have m: "matchable tie_strips"
    by (simp add: matchable_def tie_strips_def strip_with_borders_def same_layout_def)
  have u: "list_all unmatched tie_strips"
    by (simp add: unmatched_def tie_strips_def strip_with_borders_def)
  have d: "candidate_distance tie_strips 0 R 1 = 0" "candidate_distance tie_strips 0 R 2 = 0"
    by (simp_all add: candidate_distance_def distance_of_def borders_def border_distance_def
        pixel_distance_def tie_strips_def strip_with_borders_def)
  have len: "length tie_strips = 3" by (simp add: tie_strips_def)
  from C2_FindNeighbors_first_minimum [OF m u] obtain strips' where
    s: "FindNeighbors tie_strips = Inr strips'"
    and le: "\<forall>j<length tie_strips. j \<noteq> 0 \<longrightarrow>
               min_distances (strips' ! 0) R \<le> candidate_distance tie_strips 0 R j"
    and nb: "case neighbors (strips' ! 0) R of
                None \<Rightarrow> min_distances (strips' ! 0) R = MAX_const
              | Some k \<Rightarrow> k < length tie_strips \<and> k \<noteq> 0
                  \<and> min_distances (strips' ! 0) R = candidate_distance tie_strips 0 R k
                  \<and> candidate_distance tie_strips 0 R k < MAX_const
                  \<and> (\<forall>j<k. j \<noteq> 0 \<longrightarrow>
                        candidate_distance tie_strips 0 R k < candidate_distance tie_strips 0 R j)"
    unfolding len by fastforce
  have small: "min_distances (strips' ! 0) R \<le> 0"
    using le [rule_format, of 1] d(1) len by simp
  have "neighbors (strips' ! 0) R = Some 1 \<and> min_distances (strips' ! 0) R = 0"
  proof (cases "neighbors (strips' ! 0) R")
    case None
    then show ?thesis using nb small by (simp add: MAX_const_def)
  next
    case (Some k)
    then have k: "k < 3" "k \<noteq> 0"
      "min_distances (strips' ! 0) R = candidate_distance tie_strips 0 R k"
      "\<forall>j<k. j \<noteq> 0 \<longrightarrow> candidate_distance tie_strips 0 R k < candidate_distance tie_strips 0 R j"
      using nb len by simp_all
    from k(1,2) have "k = 1 \<or> k = 2" by arith
    then show ?thesis
    proof
      assume "k = 1"
      then show ?thesis using Some k(3) d by simp
    next
      assume "k = 2"
      then have "candidate_distance tie_strips 0 R 2 < candidate_distance tie_strips 0 R 1"
        using k(4) by simp
      then show ?thesis using d by simp
    qed
  qed
  then show ?thesis using m u d s by simp
qed

section \<open>Byte-valued borders\<close>

lemma byte_pixel_distance:
  assumes "byte_pixel p" and "byte_pixel q"
  shows "pixel_distance p q \<le> 255"
proof -
  have "0 \<le> p ! 0 \<and> p ! 0 \<le> 255" "0 \<le> q ! 0 \<and> q ! 0 \<le> 255"
    using assms by (simp_all add: byte_pixel_def list_all_length)
  moreover have "pixel_distance p q = \<bar>p ! 0 - q ! 0\<bar>"
    using assms(1) by (simp add: pixel_distance_four byte_pixel_def)
  ultimately show ?thesis by linarith
qed

lemma byte_border_distance:
  assumes "byte_border n pa" and "byte_border n pb"
  shows "border_distance pa pb \<le> 255 * int n"
proof -
  have len: "length pa = n" "length pb = n"
    using assms by (simp_all add: byte_border_def)
  have "sum_list (map (\<lambda>i. pixel_distance (pa ! i) (pb ! i)) [0..<n])
          \<le> sum_list (map (\<lambda>i. 255) [0..<n])"
  proof (rule sum_list_mono)
    fix i assume "i \<in> set [0..<n]"
    then have "byte_pixel (pa ! i)" "byte_pixel (pb ! i)"
      using assms len by (simp_all add: byte_border_def list_all_length)
    then show "pixel_distance (pa ! i) (pb ! i) \<le> 255" by (rule byte_pixel_distance)
  qed
  then show ?thesis by (simp add: border_distance_def len sum_list_triv)
qed

lemma byte_border_same_layout:
  assumes "byte_border n pa" and "byte_border n pb"
  shows "same_layout pa pb"
  unfolding same_layout_def
  using assms by (intro nth_equalityI) (simp_all add: byte_border_def byte_pixel_def list_all_length)

lemma byte_borders_nth:
  assumes "byte_borders n strips" and "i < length strips"
  shows "byte_border n (borders strips i e)"
  using assms by (cases e) (simp_all add: byte_borders_def borders_def list_all_length)

lemma byte_borders_matchable:
  assumes "byte_borders n strips"
  shows "matchable strips"
  unfolding matchable_def list_all_length
proof (intro allI impI conjI)
  fix i j assume "i < length strips" "j < length strips"
  then have b: "byte_border n (border_pixels (strips ! i) L)" "byte_border n (border_pixels (strips ! i) R)"
    "byte_border n (border_pixels (strips ! j) L)" "byte_border n (border_pixels (strips ! j) R)"
    using assms by (simp_all add: byte_borders_def list_all_length)
  show "same_layout (border_pixels (strips ! j) L) (border_pixels (strips ! i) R)"
    using b by (intro byte_border_same_layout)
  show "same_layout (border_pixels (strips ! j) R) (border_pixels (strips ! i) L)"
    using b by (intro byte_border_same_layout)
qed

lemma byte_candidate_distance:
  assumes "byte_borders n strips" and "i < length strips" and "j < length strips"
  shows "candidate_distance strips i e j \<le> 255 * int n"
  unfolding candidate_distance_def distance_of_def
  by (intro byte_border_distance byte_borders_nth assms)

section \<open>The calls made by FindNeighbors\<close>

lemma run_calls_append:
  "run_calls strips (xs @ ys) =
     (case run_calls strips xs of Inl e \<Rightarrow> Inl e | Inr strips' \<Rightarrow> run_calls strips' ys)"
  by (induction xs arbitrary: strips) (auto split: sum.splits)

lemma NeighborDistance_length:
  "NeighborDistance strips i j e ne = Inr (strips', d) \<Longrightarrow> length strips' = length strips"
  by (auto simp: NeighborDistance_def Let_def split: sum.splits if_splits)

lemma run_calls_length:
  "run_calls strips cs = Inr strips' \<Longrightarrow> length strips' = length strips"
proof (induction cs arbitrary: strips)
  case Nil
  then show ?case by simp
next
  case (Cons c cs)
  obtain i j e ne where c: "c = (i, j, e, ne)" by (cases c)
  from Cons.prems obtain s1 d where
    nd: "NeighborDistance strips i j e ne = Inr (s1, d)" and rest: "run_calls s1 cs = Inr strips'"
    unfolding c by (auto split: sum.splits)
  show ?case using Cons.IH [OF rest] NeighborDistance_length [OF nd] by simp
qed

lemma FindNeighbors_inner_calls:
  "FindNeighbors_inner strips i js = run_calls strips (concat (map (pair_calls i) js))"
  by (induction js arbitrary: strips) (auto simp: pair_calls_def split: sum.splits)

lemma FindNeighbors_outer_calls:
  "length strips = n \<Longrightarrow>
   FindNeighbors_outer strips is
     = run_calls strips (concat (map (\<lambda>i. concat (map (pair_calls i) [0..<n])) is))"
proof (induction "is" arbitrary: strips)
  case Nil
  then show ?case by simp
next
  case (Cons i "is")
  show ?case
  proof (cases "run_calls strips (concat (map (pair_calls i) [0..<n]))")
    case (Inl e)
    then show ?thesis
      using Cons.prems by (simp add: FindNeighbors_inner_calls run_calls_append)
  next
    case (Inr s1)
    then have "length s1 = n" using run_calls_length Cons.prems by blast
    then show ?thesis
      using Cons.IH [of s1] Cons.prems Inr
      by (simp add: FindNeighbors_inner_calls run_calls_append)
  qed
qed

lemma FindNeighbors_run_calls:
  "FindNeighbors strips = run_calls strips (FindNeighbors_calls (length strips))"
  by (simp add: FindNeighbors_def FindNeighbors_calls_def FindNeighbors_outer_calls)

lemma FindNeighbors_calls_other:
  "c \<in> set (FindNeighbors_calls n) \<Longrightarrow> fst c \<noteq> fst (snd c)"
  by (auto simp: FindNeighbors_calls_def pair_calls_def split: if_splits)

lemma NeighborDistance_no_self:
  assumes "no_self_neighbor strips" and "i \<noteq> j"
    and "NeighborDistance strips i j e ne = Inr (strips', d)"
  shows "no_self_neighbor strips'"
proof -
  have old: "neighbors (strips ! k) e' \<noteq> Some k" if "k < length strips" for k e'
    using assms(1) that by (cases e') (simp_all add: no_self_neighbor_def list_all_length)
  have "strips' = strips \<or> strips' = strips[i := (strips ! i)
                         \<lparr>neighbors := (neighbors (strips ! i))(e := Some j),
                          min_distances := (min_distances (strips ! i))(e := d)\<rparr>]"
    using assms(3) by (auto simp: NeighborDistance_def Let_def split: sum.splits if_splits)
  then show ?thesis
  proof
    assume "strips' = strips"
    then show ?thesis using assms(1) by simp
  next
    assume upd: "strips' = strips[i := (strips ! i)
                         \<lparr>neighbors := (neighbors (strips ! i))(e := Some j),
                          min_distances := (min_distances (strips ! i))(e := d)\<rparr>]"
    have "neighbors (strips' ! k) e' \<noteq> Some k" if "k < length strips" for k e'
      using old [OF that] that assms(2) unfolding upd by (cases "k = i") auto
    then show ?thesis
      unfolding no_self_neighbor_def list_all_length using upd by simp
  qed
qed

lemma run_calls_no_self:
  assumes "no_self_neighbor strips" and "\<forall>c\<in>set cs. fst c \<noteq> fst (snd c)"
    and "run_calls strips cs = Inr strips'"
  shows "no_self_neighbor strips'"
  using assms
proof (induction cs arbitrary: strips)
  case Nil
  then show ?case by simp
next
  case (Cons c cs)
  obtain i j e ne where c: "c = (i, j, e, ne)" by (cases c)
  from Cons.prems(3) obtain s1 d where
    nd: "NeighborDistance strips i j e ne = Inr (s1, d)" and rest: "run_calls s1 cs = Inr strips'"
    unfolding c by (auto split: sum.splits)
  have "i \<noteq> j" using Cons.prems(2) c by simp
  then have "no_self_neighbor s1" using NeighborDistance_no_self Cons.prems(1) nd by blast
  then show ?case using Cons.IH rest Cons.prems(2) by simp
qed

lemma unmatched_no_self:
  "list_all unmatched strips \<Longrightarrow> no_self_neighbor strips"
  by (simp add: no_self_neighbor_def unmatched_def list_all_length)

text \<open>
  C6: FindNeighbors is the run of its sequence of calls of \<open>_NeighborDistance\<close>, and
  none of these calls compares a strip with itself. So, started on strips none of which
  is its own neighbor (the constructor leaves no neighbor at all), no strip is its own
  left or right neighbor in the state after any number of these calls, nor in the strips
  that FindNeighbors returns; and on strips whose borders can be compared it does return.
\<close>

theorem C6_never_own_neighbor:
  assumes "no_self_neighbor strips"
  shows "FindNeighbors strips = run_calls strips (FindNeighbors_calls (length strips))
     \<and> (\<forall>c\<in>set (FindNeighbors_calls (length strips)). fst c \<noteq> fst (snd c))
     \<and> (\<forall>k state. run_calls strips (take k (FindNeighbors_calls (length strips))) = Inr state
           \<longrightarrow> no_self_neighbor state)
     \<and> (\<forall>strips'. FindNeighbors strips = Inr strips' \<longrightarrow> no_self_neighbor strips')
     \<and> (matchable strips \<longrightarrow> (\<exists>strips'. FindNeighbors strips = Inr strips'))"
proof (intro conjI allI impI ballI)
  show "FindNeighbors strips = run_calls strips (FindNeighbors_calls (length strips))"
    by (rule FindNeighbors_run_calls)
next
  fix c assume "c \<in> set (FindNeighbors_calls (length strips))"
  then show "fst c \<noteq> fst (snd c)" by (rule FindNeighbors_calls_other)
next
  fix k state
  assume run: "run_calls strips (take k (FindNeighbors_calls (length strips))) = Inr state"
  have "\<forall>c\<in>set (take k (FindNeighbors_calls (length strips))). fst c \<noteq> fst (snd c)"
    using FindNeighbors_calls_other by (blast dest: in_set_takeD)
  then show "no_self_neighbor state" using run_calls_no_self [OF assms _ run] by blast
next
  fix strips' assume "FindNeighbors strips = Inr strips'"
  then have run: "run_calls strips (FindNeighbors_calls (length strips)) = Inr strips'"
    by (simp add: FindNeighbors_run_calls)
  have "\<forall>c\<in>set (FindNeighbors_calls (length strips)). fst c \<noteq> fst (snd c)"
    using FindNeighbors_calls_other by blast
  then show "no_self_neighbor strips'" using run_calls_no_self [OF assms _ run] by blast
next
  assume "matchable strips"
  then show "\<exists>strips'. FindNeighbors strips = Inr strips'"
    using FindNeighbors_match by blast
qed

theorem C6_never_own_neighbor_witness:
  "no_self_neighbor tie_strips \<and> matchable tie_strips
   \<and> (\<exists>strips'. FindNeighbors tie_strips = Inr strips' \<and> no_self_neighbor strips')"
proof -
  have n: "no_self_neighbor tie_strips"
    by (simp add: no_self_neighbor_def tie_strips_def strip_with_borders_def)
  have m: "matchable tie_strips"
    by (simp add: matchable_def tie_strips_def strip_with_borders_def same_layout_def)
  show ?thesis using C6_never_own_neighbor [OF n] n m by blast
qed

section \<open>Edge detection\<close>

lemma DetectLeftEdge_loop_find:
  assumes "list_all (\<lambda>s. has_neighbors (strips ! s)) is"
  shows "DetectLeftEdge_loop strips is = Inr (List.find (\<lambda>s. \<not> reciprocal strips s) is)"
  using assms
  by (induction "is") (auto simp: has_neighbors_def reciprocal_def split: option.splits)

lemma DetectLeftEdge_find:
  assumes "list_all has_neighbors strips"
  shows "DetectLeftEdge strips
           = Inr (List.find (\<lambda>s. \<not> reciprocal strips s) [0..<length strips])"
  unfolding DetectLeftEdge_def
  using assms by (intro DetectLeftEdge_loop_find) (simp add: list_all_length)


text \<open>
  C3, as stated, on two strips: matching makes each the left and the right neighbor of the
  other, so no strip breaks reciprocity, and edge detection returns \<open>None\<close>, not a
  strip.
\<close>

theorem C3_no_offender_counterexample:
  "match_and_detect [strip_with_borders 0 [[1, 0, 0, 255]] [[5, 0, 0, 255]],
                     strip_with_borders 1 [[5, 0, 0, 255]] [[1, 0, 0, 255]]] = Inr None
   \<and> reciprocal [strip_with_neighbors 0 1 1, strip_with_neighbors 1 0 0] 0
   \<and> reciprocal [strip_with_neighbors 0 1 1, strip_with_neighbors 1 0 0] 1
   \<and> DetectLeftEdge [strip_with_neighbors 0 1 1, strip_with_neighbors 1 0 0] = Inr None"
  by (simp add: match_and_detect_def FindNeighbors_def NeighborDistance_def GetDistance_def
      getitem_def DetectLeftEdge_def reciprocal_def strip_with_borders_def
      strip_with_neighbors_def MAX_const_def Let_def)

text \<open>
  C3 (amended): on strips that all have both neighbors, when some strip breaks
  reciprocity (its left neighbor's right neighbor is not the strip itself), DetectLeftEdge
  returns the first such strip in the order of the list: every strip before it is
  reciprocal.
\<close>

theorem C3_DetectLeftEdge_first_offender:
  assumes "list_all has_neighbors strips" and "s < length strips"
    and "\<not> reciprocal strips s"
  shows "\<exists>t. DetectLeftEdge strips = Inr (Some t) \<and> t \<le> s \<and> \<not> reciprocal strips t
           \<and> (\<forall>u<t. reciprocal strips u)"
proof -
  let ?P = "\<lambda>s. \<not> reciprocal strips s"
  have "s \<in> set [0..<length strips]" using assms(2) by simp
  then have "List.find ?P [0..<length strips] \<noteq> None"
    using assms(3) by (auto simp: find_None_iff)
  then obtain t where t: "List.find ?P [0..<length strips] = Some t" by blast
  then obtain i where i: "i < length strips" "?P ([0..<length strips] ! i)"
    "t = [0..<length strips] ! i" "\<forall>j<i. \<not> ?P ([0..<length strips] ! j)"
    unfolding find_Some_iff by auto
  have ti: "t = i" using i(1,3) by simp
  have first: "\<forall>u<t. reciprocal strips u"
    using i(1,4) ti by auto
  have "\<not> reciprocal strips t" using i(1,2) ti by simp
  moreover have "t \<le> s"
  proof (rule ccontr)
    assume "\<not> t \<le> s"
    then have "s < t" by simp
    then show False using first assms(3) by blast
  qed
  ultimately show ?thesis
    using DetectLeftEdge_find [OF assms(1)] t first by simp
qed

theorem C3_DetectLeftEdge_first_offender_witness:
  "list_all has_neighbors
     [strip_with_neighbors 0 1 1, strip_with_neighbors 1 0 0,
      strip_with_neighbors 2 0 0, strip_with_neighbors 3 0 0]
   \<and> \<not> reciprocal
     [strip_with_neighbors 0 1 1, strip_with_neighbors 1 0 0,
      strip_with_neighbors 2 0 0, strip_with_neighbors 3 0 0] 3
   \<and> \<not> reciprocal
     [strip_with_neighbors 0 1 1, strip_with_neighbors 1 0 0,
      strip_with_neighbors 2 0 0, strip_with_neighbors 3 0 0] 2
   \<and> DetectLeftEdge
     [strip_with_neighbors 0 1 1, strip_with_neighbors 1 0 0,
      strip_with_neighbors 2 0 0, strip_with_neighbors 3 0 0] = Inr (Some 2)"
proof -
  let ?strips = "[strip_with_neighbors 0 1 1, strip_with_neighbors 1 0 0,
      strip_with_neighbors 2 0 0, strip_with_neighbors 3 0 0]"
  have h: "list_all has_neighbors ?strips"
    by (simp add: has_neighbors_def strip_with_neighbors_def)
  have r: "reciprocal ?strips 0" "reciprocal ?strips 1"
    "\<not> reciprocal ?strips 2" "\<not> reciprocal ?strips 3"
    by (simp_all add: reciprocal_def strip_with_neighbors_def)
  from C3_DetectLeftEdge_first_offender [OF h _ r(4)] obtain t where
    t: "DetectLeftEdge ?strips = Inr (Some t)" "t \<le> 3" "\<not> reciprocal ?strips t"
      "\<forall>u<t. reciprocal ?strips u"
    by auto
  have "t \<noteq> 3"
  proof
    assume "t = 3"
    then have "reciprocal ?strips 2" using t(4) by simp
    then show False using r(3) by blast
  qed
  moreover have "t \<noteq> 0" using t(3) r(1) by (intro notI) simp
  moreover have "t \<noteq> 1" using t(3) r(2) by (intro notI) simp
  ultimately have "t = 2" using t(2) by arith
  then show ?thesis using h r t(1) by simp
qed

section \<open>Border sampling\<close>

lemma sample_rows_Suc:
  "sample_rows (Suc h) = sample_rows h @ (if h mod SAMPLING_DISTANCE = 0 then [h] else [])"
  by (simp add: sample_rows_def)

lemma sample_rows_upt:
  "sample_rows h = map (\<lambda>k. k * SAMPLING_DISTANCE) [0..<(h + 1) div 2]"
proof (induction h)
  case 0
  then show ?case by (simp add: sample_rows_def)
next
  case (Suc h)
  show ?case
  proof (cases "even h")
    case True
    then obtain m where m: "h = 2 * m" by (auto elim: evenE)
    then show ?thesis
      using Suc by (simp add: sample_rows_Suc SAMPLING_DISTANCE_def)
  next
    case False
    then obtain m where m: "h = 2 * m + 1" by (auto elim: oddE)
    then show ?thesis
      using Suc by (simp add: sample_rows_Suc SAMPLING_DISTANCE_def)
  qed
qed

lemma sample_rows_below: "list_all (\<lambda>y. y < h) (sample_rows h)"
  by (simp add: sample_rows_def list_all_iff)

lemma LoadBorder_loop_samples:
  assumes "STRIP_WIDTH * IMAGE_HEIGHT \<le> length (image_data s)" and "x < STRIP_WIDTH"
    and "c \<le> 180"
  shows "LoadBorder_loop s border x (c * SAMPLING_DISTANCE) c
           = Inr (s\<lparr>border_pixels := (border_pixels s)
                    (border := border_pixels s border
                       @ map (\<lambda>k. image_data s ! (k * SAMPLING_DISTANCE * STRIP_WIDTH + x))
                           [c..<180])\<rparr>)"
  using assms
proof (induction "180 - c" arbitrary: s c)
  case 0
  then have c: "c = 180" by simp
  show ?case
    by (subst LoadBorder_loop.simps)
       (simp add: c SAMPLING_DISTANCE_def IMAGE_HEIGHT_def)
next
  case (Suc n)
  then have c: "c < 180" by simp
  let ?p = "image_data s ! (c * SAMPLING_DISTANCE * STRIP_WIDTH + x)"
  let ?s = "s\<lparr>border_pixels := (border_pixels s)(border := border_pixels s border @ [?p])\<rparr>"
  have y: "c * SAMPLING_DISTANCE < IMAGE_HEIGHT"
    using c by (simp add: SAMPLING_DISTANCE_def IMAGE_HEIGHT_def)
  have "c * SAMPLING_DISTANCE * STRIP_WIDTH + x < STRIP_WIDTH * IMAGE_HEIGHT"
    using c Suc.prems(2) by (simp add: SAMPLING_DISTANCE_def IMAGE_HEIGHT_def STRIP_WIDTH_def)
  then have px: "GetPixelValue s x (c * SAMPLING_DISTANCE) = Inr ?p"
    using Suc.prems(1) by (simp add: GetPixelValue_def getitem_def)
  have n: "n = 180 - Suc c" using Suc.hyps(2) by simp
  have ih: "LoadBorder_loop ?s border x (Suc c * SAMPLING_DISTANCE) (Suc c)
           = Inr (?s\<lparr>border_pixels := (border_pixels ?s)
                    (border := border_pixels ?s border
                       @ map (\<lambda>k. image_data ?s ! (k * SAMPLING_DISTANCE * STRIP_WIDTH + x))
                           [Suc c..<180])\<rparr>)"
    using Suc.hyps(1) [OF n, of ?s] Suc.prems c by simp
  have upt: "[c..<180] = c # [Suc c..<180]" using c by (simp add: upt_conv_Cons)
  have step: "LoadBorder_loop s border x (c * SAMPLING_DISTANCE) c
      = LoadBorder_loop ?s border x (Suc c * SAMPLING_DISTANCE) (Suc c)"
    by (subst LoadBorder_loop.simps) (simp only: y px if_True sum.case Suc_eq_plus1)
  show ?case
    unfolding step ih upt by simp
qed

lemma LoadBorder_samples:
  assumes "STRIP_WIDTH * IMAGE_HEIGHT \<le> length (image_data s)"
  shows "LoadBorder s border
           = Inr (s\<lparr>border_pixels := (border_pixels s)
                    (border := border_pixels s border
                       @ map (\<lambda>y. image_data s ! (y * STRIP_WIDTH + BORDERS border))
                           (sample_rows IMAGE_HEIGHT))\<rparr>)"
proof -
  have x: "BORDERS border < STRIP_WIDTH" by (cases border) (simp_all add: STRIP_WIDTH_def)
  have rows: "sample_rows IMAGE_HEIGHT = map (\<lambda>k. k * SAMPLING_DISTANCE) [0..<180]"
    by (simp add: sample_rows_upt IMAGE_HEIGHT_def)
  show ?thesis
    unfolding LoadBorder_def rows
    using LoadBorder_loop_samples [OF assms x, of 0 border] by (simp add: comp_def)
qed

lemma Strip_init_samples:
  assumes "STRIP_WIDTH * IMAGE_HEIGHT \<le> length (im_data img)"
  shows "Strip_init img pos
           = Inr \<lparr>position = pos, strip_image = img, image_data = im_data img,
                  neighbors = (\<lambda>border. None), min_distances = (\<lambda>border. MAX_const),
                  border_pixels = (\<lambda>border.
                     map (\<lambda>y. im_data img ! (y * STRIP_WIDTH + BORDERS border))
                       (sample_rows IMAGE_HEIGHT))\<rparr>"
proof -
  have f: "((\<lambda>border. [])
              (L := map (\<lambda>y. im_data img ! (y * STRIP_WIDTH + BORDERS L)) (sample_rows IMAGE_HEIGHT),
               R := map (\<lambda>y. im_data img ! (y * STRIP_WIDTH + BORDERS R)) (sample_rows IMAGE_HEIGHT)))
      = (\<lambda>border. map (\<lambda>y. im_data img ! (y * STRIP_WIDTH + BORDERS border))
                       (sample_rows IMAGE_HEIGHT))"
  proof
    fix border show "((\<lambda>border. [])
              (L := map (\<lambda>y. im_data img ! (y * STRIP_WIDTH + BORDERS L)) (sample_rows IMAGE_HEIGHT),
               R := map (\<lambda>y. im_data img ! (y * STRIP_WIDTH + BORDERS R)) (sample_rows IMAGE_HEIGHT))) border
      = map (\<lambda>y. im_data img ! (y * STRIP_WIDTH + BORDERS border)) (sample_rows IMAGE_HEIGHT)"
      by (cases border) simp_all
  qed
  show ?thesis
    unfolding Strip_init_def LoadBorderPixels_def
    using assms by (simp add: LoadBorder_samples f del: BORDERS.simps)
qed

lemma length_concat_rows:
  "length (concat (map (\<lambda>y. map (f y) [x1..<x2]) ys)) = length ys * (x2 - x1)"
  by (induction ys) simp_all

lemma crop_strip:
  "im_size (crop img (x1, 0, x1 + STRIP_WIDTH, IMAGE_HEIGHT)) = (STRIP_WIDTH, IMAGE_HEIGHT)"
  "length (im_data (crop img (x1, 0, x1 + STRIP_WIDTH, IMAGE_HEIGHT))) = STRIP_WIDTH * IMAGE_HEIGHT"
  by (simp_all add: crop_def length_concat_rows)

lemma GetStrip_result:
  "GetStrip img strip_number
     = Inr \<lparr>position = strip_number,
            strip_image = crop img (strip_number * STRIP_WIDTH, 0,
                                    strip_number * STRIP_WIDTH + STRIP_WIDTH, IMAGE_HEIGHT),
            image_data = im_data (crop img (strip_number * STRIP_WIDTH, 0,
                                    strip_number * STRIP_WIDTH + STRIP_WIDTH, IMAGE_HEIGHT)),
            neighbors = (\<lambda>border. None), min_distances = (\<lambda>border. MAX_const),
            border_pixels = (\<lambda>border.
               map (\<lambda>y. im_data (crop img (strip_number * STRIP_WIDTH, 0,
                                    strip_number * STRIP_WIDTH + STRIP_WIDTH, IMAGE_HEIGHT))
                          ! (y * STRIP_WIDTH + BORDERS border))
                 (sample_rows IMAGE_HEIGHT))\<rparr>"
  unfolding GetStrip_def Let_def by (rule Strip_init_samples) (simp add: crop_strip)

lemma sample_rows_IMAGE_HEIGHT:
  "sample_rows IMAGE_HEIGHT = map (\<lambda>k. k * SAMPLING_DISTANCE) [0..<180]"
  by (simp add: sample_rows_upt IMAGE_HEIGHT_def)

lemma sample_count: "length (sample_rows IMAGE_HEIGHT) = 180"
  by (simp add: sample_rows_IMAGE_HEIGHT)

lemma row_inside:
  assumes "y < IMAGE_HEIGHT" and "x < STRIP_WIDTH"
  shows "y * STRIP_WIDTH + x < STRIP_WIDTH * IMAGE_HEIGHT"
proof -
  have "y * STRIP_WIDTH + x < Suc y * STRIP_WIDTH" using assms(2) by simp
  also have "\<dots> \<le> IMAGE_HEIGHT * STRIP_WIDTH" using assms(1) by (intro mult_le_mono1) simp
  finally show ?thesis by (simp add: mult.commute)
qed

text \<open>
  C5: the strip that GetStrip cuts is \<open>STRIP_WIDTH\<close> (32) wide and \<open>IMAGE_HEIGHT\<close>
  (359) high, whatever the raster it is cut from, and its constructor returns. Its left
  border is then the sequence of the pixels of column 0 of the strip, and its right border
  that of the pixels of the last column, the width of the strip minus one, each at the
  rows 0, \<open>SAMPLING_DISTANCE\<close>, twice \<open>SAMPLING_DISTANCE\<close>, ... below the height of the
  strip, in this order: the rows 0, 2, ..., 358, 180 samples. Every such row is below the
  height of the strip, and every pixel read lies within the data of the strip, which holds
  its rows one after the other.
\<close>

theorem C5_border_sampling:
  "\<exists>s. GetStrip img strip_number = Inr s
     \<and> im_size (GetImage s) = (32, 359)
     \<and> image_data s = im_data (GetImage s)
     \<and> length (image_data s) = fst (im_size (GetImage s)) * snd (im_size (GetImage s))
     \<and> GetBorderPixels s L
         = map (\<lambda>y. image_data s ! (y * fst (im_size (GetImage s)) + 0))
             (sample_rows (snd (im_size (GetImage s))))
     \<and> GetBorderPixels s R
         = map (\<lambda>y. image_data s ! (y * fst (im_size (GetImage s)) + (fst (im_size (GetImage s)) - 1)))
             (sample_rows (snd (im_size (GetImage s))))
     \<and> sample_rows (snd (im_size (GetImage s))) = map (\<lambda>k. 2 * k) [0..<180]
     \<and> SAMPLING_DISTANCE = 2
     \<and> list_all (\<lambda>y. y < snd (im_size (GetImage s))) (sample_rows (snd (im_size (GetImage s))))
     \<and> list_all (\<lambda>y. y * fst (im_size (GetImage s)) + 0 < length (image_data s)
                  \<and> y * fst (im_size (GetImage s)) + (fst (im_size (GetImage s)) - 1)
                      < length (image_data s))
           (sample_rows (snd (im_size (GetImage s))))"
proof -
  let ?crop = "crop img (strip_number * STRIP_WIDTH, 0, strip_number * STRIP_WIDTH + STRIP_WIDTH, IMAGE_HEIGHT)"
  let ?s = "\<lparr>position = strip_number, strip_image = ?crop, image_data = im_data ?crop,
                  neighbors = (\<lambda>border. None), min_distances = (\<lambda>border. MAX_const),
                  border_pixels = (\<lambda>border.
                     map (\<lambda>y. im_data ?crop ! (y * STRIP_WIDTH + BORDERS border))
                       (sample_rows IMAGE_HEIGHT))\<rparr>"
  have s: "GetStrip img strip_number = Inr ?s" by (rule GetStrip_result)
  have size: "im_size ?crop = (STRIP_WIDTH, IMAGE_HEIGHT)"
    and len: "length (im_data ?crop) = STRIP_WIDTH * IMAGE_HEIGHT"
    by (rule crop_strip)+
  have cs: "STRIP_WIDTH = 32" "IMAGE_HEIGHT = 359" "SAMPLING_DISTANCE = 2"
    by (simp_all add: STRIP_WIDTH_def IMAGE_HEIGHT_def SAMPLING_DISTANCE_def)
  have rows: "sample_rows IMAGE_HEIGHT = map (\<lambda>k. 2 * k) [0..<180]"
    by (simp add: sample_rows_IMAGE_HEIGHT SAMPLING_DISTANCE_def mult.commute)
  have left: "border_pixels ?s L
      = map (\<lambda>y. im_data ?crop ! (y * STRIP_WIDTH + 0)) (sample_rows IMAGE_HEIGHT)"
    by simp
  have right: "border_pixels ?s R
      = map (\<lambda>y. im_data ?crop ! (y * STRIP_WIDTH + (STRIP_WIDTH - 1))) (sample_rows IMAGE_HEIGHT)"
    by simp
  have below: "list_all (\<lambda>y. y < IMAGE_HEIGHT) (sample_rows IMAGE_HEIGHT)"
    by (rule sample_rows_below)
  have inside: "list_all (\<lambda>y. y * STRIP_WIDTH + 0 < STRIP_WIDTH * IMAGE_HEIGHT
                  \<and> y * STRIP_WIDTH + (STRIP_WIDTH - 1) < STRIP_WIDTH * IMAGE_HEIGHT)
      (sample_rows IMAGE_HEIGHT)"
  proof -
    have "y * STRIP_WIDTH + 0 < STRIP_WIDTH * IMAGE_HEIGHT
        \<and> y * STRIP_WIDTH + (STRIP_WIDTH - 1) < STRIP_WIDTH * IMAGE_HEIGHT"
      if "y < IMAGE_HEIGHT" for y
      using row_inside [OF that, of 0] row_inside [OF that, of "STRIP_WIDTH - 1"]
      by (simp add: STRIP_WIDTH_def)
    then show ?thesis using below unfolding list_all_iff by blast
  qed
  have "im_size (GetImage ?s) = (32, 359)
     \<and> image_data ?s = im_data (GetImage ?s)
     \<and> length (image_data ?s) = fst (im_size (GetImage ?s)) * snd (im_size (GetImage ?s))
     \<and> GetBorderPixels ?s L
         = map (\<lambda>y. image_data ?s ! (y * fst (im_size (GetImage ?s)) + 0))
             (sample_rows (snd (im_size (GetImage ?s))))
     \<and> GetBorderPixels ?s R
         = map (\<lambda>y. image_data ?s ! (y * fst (im_size (GetImage ?s)) + (fst (im_size (GetImage ?s)) - 1)))
             (sample_rows (snd (im_size (GetImage ?s))))
     \<and> sample_rows (snd (im_size (GetImage ?s))) = map (\<lambda>k. 2 * k) [0..<180]
     \<and> SAMPLING_DISTANCE = 2
     \<and> list_all (\<lambda>y. y < snd (im_size (GetImage ?s))) (sample_rows (snd (im_size (GetImage ?s))))
     \<and> list_all (\<lambda>y. y * fst (im_size (GetImage ?s)) + 0 < length (image_data ?s)
                  \<and> y * fst (im_size (GetImage ?s)) + (fst (im_size (GetImage ?s)) - 1)
                      < length (image_data ?s))
           (sample_rows (snd (im_size (GetImage ?s))))"
    using left right rows below inside cs
    by (simp only: strip.simps size len fst_conv snd_conv)
  then show ?thesis unfolding s by blast
qed

section \<open>Every strip finds its neighbors\<close>

lemma byte_border_replicate:
  "byte_pixel p \<Longrightarrow> byte_border n (replicate n p)"
  by (simp add: byte_border_def list_all_iff)

lemma sentinel_above_samples:
  "255 * int (length (sample_rows IMAGE_HEIGHT)) = 45900"
  "255 * int (length (sample_rows IMAGE_HEIGHT)) < MAX_const"
  by (simp_all add: sample_count MAX_const_def)

text \<open>
  C10: the borders that the program samples have 180 pixels each. On two or more strips
  in the state the constructor leaves, whose borders are 180 samples of four byte-valued
  channels each, every candidate distance is at most 255 times the sample count, that is
  45900, which is strictly below the sentinel \<open>10 ^ 9\<close>; so a comparison on the fresh
  strips installs the candidate as the neighbor, FindNeighbors returns, and after it every
  strip has a left and a right neighbor.
\<close>

theorem C10_all_neighbors_assigned:
  assumes "2 \<le> length strips"
    and "byte_borders (length (sample_rows IMAGE_HEIGHT)) strips"
    and "list_all unmatched strips"
  shows "length (sample_rows IMAGE_HEIGHT) = 180
      \<and> 255 * int (length (sample_rows IMAGE_HEIGHT)) < MAX_const
      \<and> MAX_const = 1000000000
      \<and> (\<forall>i<length strips. \<forall>j<length strips. \<forall>edge.
            GetDistance (borders strips j (opposite edge)) (borders strips i edge)
              = Inr (candidate_distance strips i edge j)
          \<and> candidate_distance strips i edge j \<le> 255 * int (length (sample_rows IMAGE_HEIGHT))
          \<and> candidate_distance strips i edge j < MAX_const
          \<and> (\<exists>state. NeighborDistance strips i j edge (opposite edge)
                        = Inr (state, candidate_distance strips i edge j)
                \<and> neighbors (state ! i) edge = Some j))
      \<and> (\<exists>strips'. FindNeighbors strips = Inr strips' \<and> length strips' = length strips
            \<and> list_all has_neighbors strips')"
proof -
  let ?n = "length (sample_rows IMAGE_HEIGHT)"
  have small: "255 * int ?n < MAX_const" by (rule sentinel_above_samples)
  have m: "matchable strips" using assms(2) by (rule byte_borders_matchable)
  have fresh: "neighbors (strips ! i) e = None \<and> min_distances (strips ! i) e = MAX_const"
    if "i < length strips" for i e
    using assms(3) that by (cases e) (auto simp: list_all_length unmatched_def)
  have below: "candidate_distance strips i e j \<le> 255 * int ?n
      \<and> candidate_distance strips i e j < MAX_const"
    if "i < length strips" "j < length strips" for i j e
    using byte_candidate_distance [OF assms(2) that, of e] small by simp
  have call: "\<exists>state. NeighborDistance strips i j e (opposite e)
                        = Inr (state, candidate_distance strips i e j)
                \<and> neighbors (state ! i) e = Some j"
    if ij: "i < length strips" "j < length strips" for i j e
  proof -
    have "NeighborDistance strips i j e (opposite e)
        = Inr (strips[i := improve e j (candidate_distance strips i e j) (strips ! i)],
               candidate_distance strips i e j)"
      unfolding candidate_distance_def distance_of_def
      by (rule NeighborDistance_improve) (rule matchable_nth [OF m ij])
    moreover have "neighbors ((strips[i := improve e j (candidate_distance strips i e j) (strips ! i)]) ! i) e
        = Some j"
      using ij(1) below [OF ij, of e] fresh [OF ij(1), of e] by (simp add: improve_neighbors)
    ultimately show ?thesis by blast
  qed
  from FindNeighbors_kept [OF m] obtain strips' where
    s: "FindNeighbors strips = Inr strips'" "length strips' = length strips"
    and kept: "\<forall>i<length strips. \<forall>e.
            min_distances (strips' ! i) e \<le> min_distances (strips ! i) e
          \<and> (\<forall>j<length strips. j \<noteq> i \<longrightarrow>
                min_distances (strips' ! i) e \<le> candidate_distance strips i e j)
          \<and> ((neighbors (strips' ! i) e = neighbors (strips ! i) e
               \<and> min_distances (strips' ! i) e = min_distances (strips ! i) e)
             \<or> (\<exists>k<length strips. k \<noteq> i \<and> neighbors (strips' ! i) e = Some k
                  \<and> min_distances (strips' ! i) e = candidate_distance strips i e k
                  \<and> candidate_distance strips i e k < min_distances (strips ! i) e
                  \<and> (\<forall>j<k. j \<noteq> i \<longrightarrow>
                        candidate_distance strips i e k < candidate_distance strips i e j)))"
    by blast
  have found: "neighbors (strips' ! i) e \<noteq> None" if i: "i < length strips" for i e
  proof
    assume none: "neighbors (strips' ! i) e = None"
    note k = kept [rule_format, OF i, of e]
    from none k have md: "min_distances (strips' ! i) e = MAX_const"
      using fresh [OF i, of e] by auto
    have "\<exists>j<length strips. j \<noteq> i"
    proof (cases "i = 0")
      case True
      then have "1 < length strips \<and> 1 \<noteq> i" using assms(1) by simp
      then show ?thesis by blast
    next
      case False
      then have "0 < length strips \<and> 0 \<noteq> i" using assms(1) by auto
      then show ?thesis by blast
    qed
    then obtain j where j: "j < length strips" "j \<noteq> i" by blast
    have "min_distances (strips' ! i) e \<le> candidate_distance strips i e j"
      using k j by blast
    then show False using md below [OF i j(1), of e] by simp
  qed
  have all: "list_all has_neighbors strips'"
    unfolding list_all_length has_neighbors_def using found s(2) by simp
  have pairs: "\<forall>i<length strips. \<forall>j<length strips. \<forall>edge.
            GetDistance (borders strips j (opposite edge)) (borders strips i edge)
              = Inr (candidate_distance strips i edge j)
          \<and> candidate_distance strips i edge j \<le> 255 * int ?n
          \<and> candidate_distance strips i edge j < MAX_const
          \<and> (\<exists>state. NeighborDistance strips i j edge (opposite edge)
                        = Inr (state, candidate_distance strips i edge j)
                \<and> neighbors (state ! i) edge = Some j)"
    using below call GetDistance_candidate [OF m] by blast
  have "MAX_const = 1000000000" by (simp add: MAX_const_def)
  then show ?thesis using sample_count small pairs s all by blast
qed

theorem C10_all_neighbors_assigned_witness:
  "2 \<le> length [strip_with_borders 0 (replicate 180 [0, 7, 7, 255]) (replicate 180 [255, 0, 0, 255]),
                strip_with_borders 1 (replicate 180 [255, 1, 1, 255]) (replicate 180 [0, 0, 0, 255])]
   \<and> byte_borders (length (sample_rows IMAGE_HEIGHT))
               [strip_with_borders 0 (replicate 180 [0, 7, 7, 255]) (replicate 180 [255, 0, 0, 255]),
                strip_with_borders 1 (replicate 180 [255, 1, 1, 255]) (replicate 180 [0, 0, 0, 255])]
   \<and> list_all unmatched
               [strip_with_borders 0 (replicate 180 [0, 7, 7, 255]) (replicate 180 [255, 0, 0, 255]),
                strip_with_borders 1 (replicate 180 [255, 1, 1, 255]) (replicate 180 [0, 0, 0, 255])]
   \<and> (\<exists>strips'. FindNeighbors
               [strip_with_borders 0 (replicate 180 [0, 7, 7, 255]) (replicate 180 [255, 0, 0, 255]),
                strip_with_borders 1 (replicate 180 [255, 1, 1, 255]) (replicate 180 [0, 0, 0, 255])]
             = Inr strips'
        \<and> list_all has_neighbors strips')"
proof -
  let ?strips = "[strip_with_borders 0 (replicate 180 [0, 7, 7, 255]) (replicate 180 [255, 0, 0, 255]),
                strip_with_borders 1 (replicate 180 [255, 1, 1, 255]) (replicate 180 [0, 0, 0, 255])]"
  have h1: "2 \<le> length ?strips" by simp
  have p: "byte_pixel [0, 7, 7, 255]" "byte_pixel [255, 0, 0, 255]"
    "byte_pixel [255, 1, 1, 255]" "byte_pixel [0, 0, 0, 255]"
    by (simp_all add: byte_pixel_def)
  have h2: "byte_borders (length (sample_rows IMAGE_HEIGHT)) ?strips"
    unfolding sample_count
    by (simp add: byte_borders_def strip_with_borders_def byte_border_replicate p)
  have h3: "list_all unmatched ?strips"
    by (simp add: unmatched_def strip_with_borders_def)
  from C10_all_neighbors_assigned [OF h1 h2 h3]
  have "\<exists>strips'. FindNeighbors ?strips = Inr strips' \<and> list_all has_neighbors strips'"
    by blast
  then show ?thesis using h1 h2 h3 by blast
qed

section \<open>Assembly\<close>

lemma slot_count: "IMAGE_WIDTH div STRIP_WIDTH = 20"
  by (simp add: IMAGE_WIDTH_def STRIP_WIDTH_def)

lemma OrderStrips_halt:
  "IMAGE_WIDTH \<le> count * STRIP_WIDTH \<Longrightarrow> OrderStrips strips canvas strip count = Inr canvas"
  by (subst OrderStrips.simps) (simp add: Let_def del: OrderStrips.simps)

lemma OrderStrips_paste:
  "count * STRIP_WIDTH < IMAGE_WIDTH \<Longrightarrow>
   OrderStrips strips canvas (Some s) count
     = OrderStrips strips (paste canvas (GetImage (strips ! s)) (count * STRIP_WIDTH, 0))
         (GetRightNeighbor (strips ! s)) (count + 1)"
  by (subst OrderStrips.simps) (simp add: Let_def del: OrderStrips.simps)

lemma OrderStrips_None:
  "count * STRIP_WIDTH < IMAGE_WIDTH \<Longrightarrow>
   OrderStrips strips canvas None count = Inl AttributeError"
  by (subst OrderStrips.simps) (simp add: Let_def del: OrderStrips.simps)

lemma slot_inside: "count < 20 \<Longrightarrow> count * STRIP_WIDTH < IMAGE_WIDTH"
  by (simp add: IMAGE_WIDTH_def STRIP_WIDTH_def)

lemma slot_outside: "20 \<le> count \<Longrightarrow> IMAGE_WIDTH \<le> count * STRIP_WIDTH"
  by (simp add: IMAGE_WIDTH_def STRIP_WIDTH_def)

lemma OrderStrips_chain:
  assumes "count + n = 20"
  shows "OrderStrips strips canvas strip count
           = (if length (chain strips strip n) = n
              then Inr (canvas @ map (\<lambda>k. (GetImage (strips ! (chain strips strip n ! k)),
                                             ((count + k) * STRIP_WIDTH, 0))) [0..<n])
              else Inl AttributeError)"
  using assms
proof (induction n arbitrary: canvas strip count)
  case 0
  then have "IMAGE_WIDTH \<le> count * STRIP_WIDTH" by (intro slot_outside) simp
  then show ?case by (simp add: OrderStrips_halt del: OrderStrips.simps)
next
  case (Suc n)
  then have inside: "count * STRIP_WIDTH < IMAGE_WIDTH" by (intro slot_inside) simp
  show ?case
  proof (cases strip)
    case None
    then show ?thesis using inside by (simp add: OrderStrips_None del: OrderStrips.simps)
  next
    case (Some s)
    let ?next = "GetRightNeighbor (strips ! s)"
    let ?canvas = "paste canvas (GetImage (strips ! s)) (count * STRIP_WIDTH, 0)"
    have ih: "OrderStrips strips ?canvas ?next (count + 1)
           = (if length (chain strips ?next n) = n
              then Inr (?canvas @ map (\<lambda>k. (GetImage (strips ! (chain strips ?next n ! k)),
                                             ((count + 1 + k) * STRIP_WIDTH, 0))) [0..<n])
              else Inl AttributeError)"
      using Suc.prems by (intro Suc.IH) simp
    have shift: "map (\<lambda>k. (GetImage (strips ! ((s # chain strips ?next n) ! k)),
                            ((count + k) * STRIP_WIDTH, 0))) [0..<Suc n]
        = (GetImage (strips ! s), (count * STRIP_WIDTH, 0))
          # map (\<lambda>k. (GetImage (strips ! (chain strips ?next n ! k)),
                            ((count + 1 + k) * STRIP_WIDTH, 0))) [0..<n]"
      by (subst map_upt_Suc) simp
    show ?thesis
      unfolding Some OrderStrips_paste [OF inside] ih
      by (simp only: chain.simps length_Cons nat.inject shift paste_def append_Cons append_Nil
            append_assoc)
  qed
qed

lemma right_linked_nth:
  assumes "right_linked strips" and "s < length strips"
  shows "\<exists>r<length strips. GetRightNeighbor (strips ! s) = Some r"
  using assms by (auto simp: right_linked_def list_all_length split: option.splits)

lemma chain_linked:
  assumes "right_linked strips" and "s < length strips"
  shows "length (chain strips (Some s) n) = n"
    and "list_all (\<lambda>t. t < length strips) (chain strips (Some s) n)"
  using assms(2)
proof (induction n arbitrary: s)
  case 0
  { case 1 show ?case by simp }
  { case 2 show ?case by simp }
next
  case (Suc n)
  { case 1
    from right_linked_nth [OF assms(1) 1] obtain r where
      r: "r < length strips" "GetRightNeighbor (strips ! s) = Some r" by blast
    show ?case using Suc(1) [OF r(1)] r(2) by simp }
  { case 2
    from right_linked_nth [OF assms(1) 2] obtain r where
      r: "r < length strips" "GetRightNeighbor (strips ! s) = Some r" by blast
    show ?case using Suc(2) [OF r(1)] r(2) 2 by simp }
qed

lemma chain_step:
  assumes "Suc k < length (chain strips strip n)"
  shows "GetRightNeighbor (strips ! (chain strips strip n ! k)) = Some (chain strips strip n ! Suc k)"
  using assms
proof (induction strips strip n arbitrary: k rule: chain.induct)
  case (1 strips strip)
  then show ?case by simp
next
  case (2 strips n)
  then show ?case by simp
next
  case (3 strips s n)
  show ?case
  proof (cases k)
    case 0
    then have "0 < length (chain strips (GetRightNeighbor (strips ! s)) n)"
      using 3(2) by simp
    then obtain r where r: "GetRightNeighbor (strips ! s) = Some r"
      by (cases "GetRightNeighbor (strips ! s)"; cases n) auto
    then have "chain strips (GetRightNeighbor (strips ! s)) n ! 0 = r"
      using \<open>0 < length (chain strips (GetRightNeighbor (strips ! s)) n)\<close>
      by (cases n) auto
    then show ?thesis using 0 r by simp
  next
    case (Suc k')
    then show ?thesis using 3 by simp
  qed
qed

text \<open>
  C4: on strips that all have a right neighbor, OrderStrips started at a strip \<open>edge\<close>
  with count 0 returns. It visits the chain of right neighbors that starts at \<open>edge\<close>
  and makes exactly \<open>IMAGE_WIDTH div STRIP_WIDTH\<close> = 20 pastes on the output raster, the
  \<open>k\<close>-th visited strip (from 0) at the offset \<open>(k * STRIP_WIDTH, 0)\<close>, where a raster
  that is \<open>STRIP_WIDTH\<close> wide covers the columns from \<open>k * STRIP_WIDTH\<close> up to, not
  including, \<open>(k + 1) * STRIP_WIDTH\<close>. A call whose offset \<open>count * STRIP_WIDTH\<close> is at
  or beyond \<open>IMAGE_WIDTH\<close> returns the raster as it is; a call with a smaller offset
  pastes and goes on with the right neighbor; and the offsets of the counts below 20 are
  the ones below \<open>IMAGE_WIDTH\<close>.
\<close>

theorem C4_OrderStrips_slots:
  assumes "right_linked strips" and "edge < length strips"
  shows "IMAGE_WIDTH div STRIP_WIDTH = 20
      \<and> length (chain strips (Some edge) (IMAGE_WIDTH div STRIP_WIDTH)) = IMAGE_WIDTH div STRIP_WIDTH
      \<and> chain strips (Some edge) (IMAGE_WIDTH div STRIP_WIDTH) ! 0 = edge
      \<and> (\<forall>k. Suc k < IMAGE_WIDTH div STRIP_WIDTH \<longrightarrow>
            GetRightNeighbor (strips ! (chain strips (Some edge) (IMAGE_WIDTH div STRIP_WIDTH) ! k))
              = Some (chain strips (Some edge) (IMAGE_WIDTH div STRIP_WIDTH) ! Suc k))
      \<and> OrderStrips strips canvas (Some edge) 0
          = Inr (canvas @ map (\<lambda>k.
                   (GetImage (strips ! (chain strips (Some edge) (IMAGE_WIDTH div STRIP_WIDTH) ! k)),
                    (k * STRIP_WIDTH, 0))) [0..<IMAGE_WIDTH div STRIP_WIDTH])
      \<and> (\<forall>k<IMAGE_WIDTH div STRIP_WIDTH. \<forall>im. fst (im_size im) = STRIP_WIDTH \<longrightarrow>
            paste_columns (im, (k * STRIP_WIDTH, 0)) = [k * STRIP_WIDTH..<(k + 1) * STRIP_WIDTH]
            \<and> (k + 1) * STRIP_WIDTH \<le> IMAGE_WIDTH)
      \<and> (\<forall>count. (count * STRIP_WIDTH < IMAGE_WIDTH) = (count < IMAGE_WIDTH div STRIP_WIDTH))
      \<and> (\<forall>c strip count. IMAGE_WIDTH \<le> count * STRIP_WIDTH \<longrightarrow>
            OrderStrips strips c strip count = Inr c)
      \<and> (\<forall>c s count. count * STRIP_WIDTH < IMAGE_WIDTH \<longrightarrow>
            OrderStrips strips c (Some s) count
              = OrderStrips strips (paste c (GetImage (strips ! s)) (count * STRIP_WIDTH, 0))
                  (GetRightNeighbor (strips ! s)) (count + 1))"
proof -
  let ?visited = "chain strips (Some edge) 20"
  have len: "length ?visited = 20"
    using chain_linked(1) [OF assms] by simp
  have first: "?visited ! 0 = edge"
    by (simp add: eval_nat_numeral)
  have links: "\<forall>k. Suc k < 20 \<longrightarrow>
      GetRightNeighbor (strips ! (?visited ! k)) = Some (?visited ! Suc k)"
    using chain_step [of _ strips "Some edge" 20] len by simp
  have run: "OrderStrips strips canvas (Some edge) 0
      = Inr (canvas @ map (\<lambda>k. (GetImage (strips ! (?visited ! k)), (k * STRIP_WIDTH, 0))) [0..<20])"
    using OrderStrips_chain [of 0 20 strips canvas "Some edge"] len by simp
  have cols: "\<forall>k<20. \<forall>im. fst (im_size im) = STRIP_WIDTH \<longrightarrow>
      paste_columns (im, (k * STRIP_WIDTH, 0)) = [k * STRIP_WIDTH..<(k + 1) * STRIP_WIDTH]
      \<and> (k + 1) * STRIP_WIDTH \<le> IMAGE_WIDTH"
    by (simp add: paste_columns_def add.commute) (simp add: IMAGE_WIDTH_def STRIP_WIDTH_def)
  have offsets: "\<forall>count. (count * STRIP_WIDTH < IMAGE_WIDTH) = (count < 20)"
    by (auto simp: IMAGE_WIDTH_def STRIP_WIDTH_def)
  have halt: "\<forall>c strip count. IMAGE_WIDTH \<le> count * STRIP_WIDTH \<longrightarrow>
      OrderStrips strips c strip count = Inr c"
    using OrderStrips_halt by blast
  have step: "\<forall>c s count. count * STRIP_WIDTH < IMAGE_WIDTH \<longrightarrow>
      OrderStrips strips c (Some s) count
        = OrderStrips strips (paste c (GetImage (strips ! s)) (count * STRIP_WIDTH, 0))
            (GetRightNeighbor (strips ! s)) (count + 1)"
    using OrderStrips_paste by blast
  show ?thesis
    unfolding slot_count using len first links run cols offsets halt step by blast
qed

theorem C4_OrderStrips_slots_witness:
  "right_linked [solid_strip 0 1 1, solid_strip 1 0 2, solid_strip 2 1 0]
   \<and> (\<exists>canvas. OrderStrips [solid_strip 0 1 1, solid_strip 1 0 2, solid_strip 2 1 0] []
                   (Some 0) 0 = Inr canvas
        \<and> length canvas = 20
        \<and> canvas ! 0 = (GetImage (solid_strip 0 1 1), (0, 0))
        \<and> canvas ! 1 = (GetImage (solid_strip 1 0 2), (32, 0))
        \<and> canvas ! 2 = (GetImage (solid_strip 2 1 0), (64, 0))
        \<and> paste_columns (canvas ! 1) = [32..<64])"
proof -
  let ?strips = "[solid_strip 0 1 1, solid_strip 1 0 2, solid_strip 2 1 0]"
  let ?visited = "chain ?strips (Some 0) (IMAGE_WIDTH div STRIP_WIDTH)"
  have right: "GetRightNeighbor (solid_strip p l r) = Some r" for p l r
    by (simp add: solid_strip_def)
  have width: "fst (im_size (GetImage (solid_strip p l r))) = STRIP_WIDTH" for p l r
    by (simp add: solid_strip_def)
  have linked: "right_linked ?strips"
    by (simp add: right_linked_def right)
  have edge: "0 < length ?strips" by simp
  note c4 = C4_OrderStrips_slots [OF linked edge, of "[]"]
  have n: "IMAGE_WIDTH div STRIP_WIDTH = 20" using c4 by blast
  have v0: "?visited ! 0 = 0" using c4 by blast
  have links: "\<forall>k. Suc k < IMAGE_WIDTH div STRIP_WIDTH \<longrightarrow>
      GetRightNeighbor (?strips ! (?visited ! k)) = Some (?visited ! Suc k)"
    using c4 by blast
  have "Suc 0 < IMAGE_WIDTH div STRIP_WIDTH" unfolding n by simp
  then have "GetRightNeighbor (?strips ! (?visited ! 0)) = Some (?visited ! Suc 0)"
    using links by blast
  then have v1: "?visited ! Suc 0 = Suc 0"
    unfolding v0 by (simp add: right)
  have "Suc (Suc 0) < IMAGE_WIDTH div STRIP_WIDTH" unfolding n by simp
  then have "GetRightNeighbor (?strips ! (?visited ! Suc 0)) = Some (?visited ! Suc (Suc 0))"
    using links by blast
  then have v2: "?visited ! Suc (Suc 0) = 2"
    unfolding v1 by (simp add: right)
  let ?f = "\<lambda>k. (GetImage (?strips ! (?visited ! k)), (k * STRIP_WIDTH, 0::nat))"
  let ?canvas = "map ?f [0..<IMAGE_WIDTH div STRIP_WIDTH]"
  have run: "OrderStrips ?strips [] (Some 0) 0 = Inr ?canvas"
    using c4 by simp
  have len: "length ?canvas = 20" unfolding n by simp
  have nth: "?canvas ! k = ?f k" if "k < 20" for k
    unfolding n using that by (simp only: nth_map_upt minus_nat.diff_0 add_0)
  have "?canvas ! 0 = ?f 0" by (rule nth) simp
  then have c0: "?canvas ! 0 = (GetImage (solid_strip 0 1 1), (0, 0))"
    unfolding v0 by simp
  have "?canvas ! Suc 0 = ?f (Suc 0)" by (rule nth) simp
  then have c1: "?canvas ! 1 = (GetImage (solid_strip 1 0 2), (32, 0))"
    unfolding v1 by (simp add: STRIP_WIDTH_def)
  have "?canvas ! Suc (Suc 0) = ?f (Suc (Suc 0))" by (rule nth) simp
  then have c2: "?canvas ! 2 = (GetImage (solid_strip 2 1 0), (64, 0))"
    unfolding v2 by (simp add: STRIP_WIDTH_def numeral_2_eq_2)
  have cols: "paste_columns (?canvas ! 1) = [32..<64]"
    unfolding c1 by (simp add: paste_columns_def width) (simp add: STRIP_WIDTH_def)
  show ?thesis
    using linked run len c0 c1 c2 cols by blast
qed

section \<open>The strips of a raster one strip wide\<close>














lemma cut_strips_length: "length (map (cut_strip img) [0..<20]) = 20"
  by simp



















section \<open>Rasters of one colour, and a single strip\<close>














end
